theory Spec2Isabelle
  imports Main "HOL-Library.Word" "HOL-Library.AList"
begin

section \<open>Data model of UnsyncedRpcTracker\<close>

text \<open>
  The tracker of \<^verbatim>\<open>UnsyncedRpcTracker.cc\<close> keeps, per session to a master, a queue of
  RPCs whose effects are not yet known to be replicated, together with the newest log state
  seen for that master.

  Pointers are natural numbers (\<open>None\<close> is \<^verbatim>\<open>NULL\<close> where the source uses it).
  \<^verbatim>\<open>WireFormat::LogState\<close> is declared in a header that is not among the sources. Its
  \<^verbatim>\<open>operator<\<close> is the order of a type \<open>'l::linorder\<close> (the specification calls LogState
  totally ordered) and its method \<^verbatim>\<open>isSynced\<close> is a parameter \<open>isSynced\<close> of every
  function that reaches it: \<open>isSynced p s\<close> is \<^verbatim>\<open>p.isSynced(s)\<close>.
\<close>

text \<open>
  \<^verbatim>\<open>Status\<close> is declared outside the sources; only \<^verbatim>\<open>STATUS_OK\<close> and
  \<^verbatim>\<open>STATUS_STALE_RPC\<close> are told apart by the code, every other value is \<open>STATUS_OTHER n\<close>.
\<close>

datatype Status = STATUS_OK | STATUS_STALE_RPC | STATUS_OTHER nat

text \<open>
  A \<^verbatim>\<open>std::function<void()>\<close> stored in a queue entry is one of three closures: one
  supplied by the client (opaque, named by a number), the empty lambda \<^verbatim>\<open>[]{}\<close> of the
  transaction overload of \<^verbatim>\<open>registerUnsynced\<close>, or the wrapper built by
  \<^verbatim>\<open>sync(callback)\<close>, which captures \<^verbatim>\<open>callback\<close>, \<^verbatim>\<open>numMasters\<close> and the pointer
  \<^verbatim>\<open>syncedMasterCounter\<close>.
\<close>

datatype callback =
    Client nat
  | NoOp
  | FanIn (captured: nat) (numMasters: int) (syncedMasterCounter: nat)

text \<open>\<^verbatim>\<open>ClientRequest\<close>: a pointer to the request bytes and their length.\<close>

record ClientRequest =
  data :: "nat option"
  sizeBytes :: nat

record 'l UnsyncedRpc =
  request :: ClientRequest
  tableId :: "64 word"
  keyHash :: "64 word"
  objVer :: "64 word"
  txWithUnsyncedPrepare :: "nat option"
  logPosition :: 'l
  callback :: callback

text \<open>
  \<^verbatim>\<open>Master\<close>: the queue \<^verbatim>\<open>rpcs\<close> is a list whose head is \<^verbatim>\<open>front()\<close> and whose last
  element is \<^verbatim>\<open>back()\<close>. \<^verbatim>\<open>syncRpcHolder\<close> is a Tub holding at most one \<^verbatim>\<open>SyncRpc\<close>;
  a held RPC is described by the session it was sent on and its \<^verbatim>\<open>syncGoal\<close>.
\<close>

record 'l Master =
  session :: nat
  rpcs :: "'l UnsyncedRpc list"
  lastestLogState :: 'l
  syncRpcHolder :: "(nat \<times> 'l) option"

text \<open>
  What the tracker does to the world outside it, in the order it happens:
  \<^item> \<open>Callback cb\<close>: \<^verbatim>\<open>rpc.callback()\<close> is called on an entry whose callback is \<open>cb\<close>;
  \<^item> \<open>FanInCallback k c\<close>: the wrapper over counter \<open>k\<close> calls its captured \<^verbatim>\<open>callback()\<close>;
  \<^item> \<open>Free p\<close>: \<^verbatim>\<open>rpcRequestPool->free(p)\<close>;
  \<^item> \<open>SyncSent s goal\<close>: a \<^verbatim>\<open>SyncRpc\<close> is constructed (and sent) on session \<open>s\<close>;
  \<^item> \<open>RetrySent t h r\<close>: a \<^verbatim>\<open>RetryUnsyncedRpc\<close> is constructed (and sent);
  \<^item> \<open>Fault k\<close>: the wrapper reads a counter that is not allocated, or its assertion fails.
\<close>

datatype 'l event =
    Callback callback
  | FanInCallback nat nat
  | Free "nat option"
  | SyncSent nat 'l
  | RetrySent "64 word" "64 word" ClientRequest
  | Fault nat

text \<open>
  The counters obtained by \<^verbatim>\<open>new int\<close> live in a store: cell \<open>k\<close> is \<open>Some v\<close> while
  allocated and \<open>None\<close> after \<^verbatim>\<open>delete\<close>. \<^verbatim>\<open>new\<close> appends a cell.
\<close>

type_synonym store = "int option list"

definition cell :: "store \<Rightarrow> nat \<Rightarrow> int option" where
  "cell h k = (if k < length h then h ! k else None)"

section \<open>Calling a stored callback\<close>

text \<open>
  The effect of calling a stored closure. A client closure and the empty lambda leave the
  tracker's world alone. The wrapper (lines 360-369) increments the shared counter and,
  once it has reached \<^verbatim>\<open>numMasters\<close>, calls the captured callback and deletes the counter.
\<close>

fun invoke :: "callback \<Rightarrow> store \<Rightarrow> store \<times> 'l event list" where
  "invoke (Client c) h = (h, [])"
| "invoke NoOp h = (h, [])"
| "invoke (FanIn c n k) h =
     (case cell h k of
        None \<Rightarrow> (h, [Fault k])
      | Some v \<Rightarrow>
          if \<not> (v + 1 \<le> n) then (h[k := Some (v + 1)], [Fault k])
          else if v + 1 \<ge> n then (h[k := None], [FanInCallback k c])
          else (h[k := Some (v + 1)], []))"

section \<open>Master::updateLogState\<close>

text \<open>
  The loop of lines 536-546: while the front entry is synced with respect to
  \<^verbatim>\<open>newLogState\<close>, call its callback, free its request unless it belongs to a transaction
  prepare, and pop it.
\<close>

fun updateLogState_loop ::
  "('l \<Rightarrow> 'l \<Rightarrow> bool) \<Rightarrow> 'l \<Rightarrow> 'l UnsyncedRpc list \<Rightarrow> store
     \<Rightarrow> 'l UnsyncedRpc list \<times> store \<times> 'l event list" where
  "updateLogState_loop isSynced newLogState [] h = ([], h, [])"
| "updateLogState_loop isSynced newLogState (rpc # rest) h =
     (if \<not> isSynced (logPosition rpc) newLogState then (rpc # rest, h, [])
      else
        let (h1, ev1) = invoke (callback rpc) h;
            ev2 = (if txWithUnsyncedPrepare rpc = None then [Free (data (request rpc))] else []);
            (q, h2, ev3) = updateLogState_loop isSynced newLogState rest h1
        in (q, h2, Callback (callback rpc) # ev1 @ ev2 @ ev3))"

definition Master_updateLogState ::
  "('l::linorder \<Rightarrow> 'l \<Rightarrow> bool) \<Rightarrow> 'l \<Rightarrow> 'l Master \<Rightarrow> store
     \<Rightarrow> 'l Master \<times> store \<times> 'l event list" where
  "Master_updateLogState isSynced newLogState m h =
     (let m1 = (if lastestLogState m < newLogState
                then m\<lparr>lastestLogState := newLogState\<rparr> else m);
          (q, h', evs) = updateLogState_loop isSynced newLogState (rpcs m1) h
      in (m1\<lparr>rpcs := q\<rparr>, h', evs))"

section \<open>RetryUnsyncedRpc::wait\<close>

text \<open>
  Lines 498-511, after \<^verbatim>\<open>waitInternal\<close> has returned with a response whose header carries
  \<open>status\<close>: \<open>Inr ()\<close> is a normal return, \<open>Inl st\<close> is the \<^verbatim>\<open>ClientException\<close> thrown for
  status \<open>st\<close>.
\<close>

definition RetryUnsyncedRpc_wait :: "Status \<Rightarrow> Status + unit" where
  "RetryUnsyncedRpc_wait status =
     (if status = STATUS_OK then Inr ()
      else if status = STATUS_STALE_RPC then Inr ()
      else Inl status)"

section \<open>The tracker and its world\<close>

text \<open>
  \<open>masters\<close> is the tracker's \<^verbatim>\<open>MasterMap\<close>, from session pointer to master record, as
  an association list in the order in which the loops of \<^verbatim>\<open>sync()\<close>, \<^verbatim>\<open>efficientSync\<close> and
  \<^verbatim>\<open>sync(callback)\<close> visit the map. The code does not fix that order: it is the iteration
  order of the container, declared in the missing header, and need not be the order of
  insertion. The list stands for one such order, and a new key is put at its end. The
  theorems stated for every world hold whatever the order of the list they start from. The
  two-peer traces of \<^verbatim>\<open>sync()\<close> followed by \<^verbatim>\<open>efficientSync\<close> are traces for the order given
  there, in which the peer that is visited first is the one whose sync RPC fails; the same
  behaviour is shown for the two peers in the opposite order. \<open>counters\<close> is the store of
  fan-in counters and \<open>trace\<close> collects the events, oldest first. Every operation runs under
  the tracker's mutex from start to end, so operations are steps on this state.
\<close>

record 'l World =
  masters :: "(nat \<times> 'l Master) list"
  counters :: store
  trace :: "'l event list"

text \<open>How a call ends: it returns, or a \<^verbatim>\<open>ClientException\<close> for a status leaves it.\<close>

datatype outcome = Returned | Threw Status

text \<open>
  \<^verbatim>\<open>getOrInitMasterRecord\<close> (lines 382-396): the record found, or a new one entered in
  the map; in the list it goes to the end, where the code leaves its place among the keys
  to the container. \<open>initial\<close> is the log state of a newly constructed \<^verbatim>\<open>Master\<close>, whose
  constructor is in the missing header.
\<close>

definition getOrInitMasterRecord ::
  "'l \<Rightarrow> nat \<Rightarrow> (nat \<times> 'l Master) list \<Rightarrow> 'l Master \<times> (nat \<times> 'l Master) list" where
  "getOrInitMasterRecord initial sessionPtr ms =
     (case map_of ms sessionPtr of
        Some m \<Rightarrow> (m, ms)
      | None \<Rightarrow>
          let m = \<lparr>session = sessionPtr, rpcs = [], lastestLogState = initial,
                   syncRpcHolder = None\<rparr>
          in (m, ms @ [(sessionPtr, m)]))"

text \<open>\<^verbatim>\<open>registerUnsynced\<close>, first overload (lines 80-95).\<close>

definition registerUnsynced ::
  "('l::linorder \<Rightarrow> 'l \<Rightarrow> bool) \<Rightarrow> 'l \<Rightarrow> nat \<Rightarrow> ClientRequest \<Rightarrow> 64 word \<Rightarrow> 64 word
     \<Rightarrow> 64 word \<Rightarrow> 'l \<Rightarrow> callback \<Rightarrow> 'l World \<Rightarrow> 'l World" where
  "registerUnsynced isSynced initial sessionPtr rpcRequest tid kh ver logPos cb T =
     (let (m, ms) = getOrInitMasterRecord initial sessionPtr (masters T);
          m1 = m\<lparr>rpcs := rpcs m @
                 [\<lparr>request = rpcRequest, tableId = tid, keyHash = kh, objVer = ver,
                   txWithUnsyncedPrepare = None, logPosition = logPos, callback = cb\<rparr>]\<rparr>;
          (m2, h, evs) = Master_updateLogState isSynced logPos m1 (counters T)
      in T\<lparr>masters := AList.update sessionPtr m2 ms, counters := h,
           trace := trace T @ evs\<rparr>)"

text \<open>\<^verbatim>\<open>registerUnsynced\<close>, transaction overload (lines 109-119).\<close>

definition registerUnsyncedTx ::
  "('l::linorder \<Rightarrow> 'l \<Rightarrow> bool) \<Rightarrow> 'l \<Rightarrow> nat \<Rightarrow> nat \<Rightarrow> 'l \<Rightarrow> 'l World \<Rightarrow> 'l World" where
  "registerUnsyncedTx isSynced initial sessionPtr txTask logPos T =
     (let (m, ms) = getOrInitMasterRecord initial sessionPtr (masters T);
          emptyRequest = \<lparr>data = None, sizeBytes = 0\<rparr>;
          m1 = m\<lparr>rpcs := rpcs m @
                 [\<lparr>request = emptyRequest, tableId = 0, keyHash = 0, objVer = 0,
                   txWithUnsyncedPrepare = Some txTask, logPosition = logPos,
                   callback = NoOp\<rparr>]\<rparr>;
          (m2, h, evs) = Master_updateLogState isSynced logPos m1 (counters T)
      in T\<lparr>masters := AList.update sessionPtr m2 ms, counters := h,
           trace := trace T @ evs\<rparr>)"

text \<open>
  The loop of \<^verbatim>\<open>flushSession\<close> (lines 143-159). \<open>retryStatus rpc\<close> is the status of the
  response that the retry of \<open>rpc\<close> ends with. When \<^verbatim>\<open>wait\<close> throws, the entry is still at
  the front of the queue.
\<close>

fun flushSession_loop ::
  "('l UnsyncedRpc \<Rightarrow> Status) \<Rightarrow> 'l UnsyncedRpc list \<Rightarrow> store
     \<Rightarrow> 'l UnsyncedRpc list \<times> store \<times> 'l event list \<times> outcome" where
  "flushSession_loop retryStatus [] h = ([], h, [], Returned)"
| "flushSession_loop retryStatus (rpc # rest) h =
     (if txWithUnsyncedPrepare rpc \<noteq> None then flushSession_loop retryStatus rest h
      else
        case RetryUnsyncedRpc_wait (retryStatus rpc) of
          Inl st \<Rightarrow>
            (rpc # rest, h, [RetrySent (tableId rpc) (keyHash rpc) (request rpc)], Threw st)
        | Inr u \<Rightarrow>
            let (h1, ev1) = invoke (callback rpc) h;
                (q, h2, ev2, out) = flushSession_loop retryStatus rest h1
            in (q, h2,
                RetrySent (tableId rpc) (keyHash rpc) (request rpc) # Callback (callback rpc)
                  # ev1 @ Free (data (request rpc)) # ev2,
                out))"

text \<open>\<^verbatim>\<open>flushSession\<close> (lines 129-161).\<close>

definition flushSession ::
  "('l UnsyncedRpc \<Rightarrow> Status) \<Rightarrow> nat \<Rightarrow> 'l World \<Rightarrow> 'l World \<times> outcome" where
  "flushSession retryStatus sessionPtr T =
     (case map_of (masters T) sessionPtr of
        None \<Rightarrow> (T, Returned)
      | Some m \<Rightarrow>
          let (q, h, evs, out) = flushSession_loop retryStatus (rpcs m) (counters T)
          in (T\<lparr>masters := AList.update sessionPtr (m\<lparr>rpcs := q\<rparr>) (masters T),
                counters := h, trace := trace T @ evs\<rparr>, out))"

text \<open>The tracker's \<^verbatim>\<open>updateLogState\<close> (lines 173-187).\<close>

definition updateLogState ::
  "('l::linorder \<Rightarrow> 'l \<Rightarrow> bool) \<Rightarrow> nat \<Rightarrow> 'l \<Rightarrow> 'l World \<Rightarrow> 'l World" where
  "updateLogState isSynced sessionPtr masterLogState T =
     (case map_of (masters T) sessionPtr of
        None \<Rightarrow> T
      | Some m \<Rightarrow>
          let (m', h, evs) = Master_updateLogState isSynced masterLogState m (counters T)
          in T\<lparr>masters := AList.update sessionPtr m' (masters T), counters := h,
               trace := trace T @ evs\<rparr>)"

section \<open>Blocking sync\<close>

text \<open>
  \<^verbatim>\<open>SyncRpc::wait\<close> (lines 432-449). The RPC either failed (no response) or finished with a
  response carrying a status and the master's log state. \<open>newLogState\<close> is the value behind
  the out-pointer before the call; the result is the thrown status, or the returned flag and
  the value behind the pointer afterwards.
\<close>

datatype 'l SyncResponse = FAILED | FINISHED Status 'l

definition SyncRpc_wait :: "'l SyncResponse \<Rightarrow> 'l \<Rightarrow> Status + (bool \<times> 'l)" where
  "SyncRpc_wait resp newLogState =
     (case resp of
        FAILED \<Rightarrow> Inr (False, newLogState)
      | FINISHED st l \<Rightarrow> if st \<noteq> STATUS_OK then Inl st else Inr (True, l))"

text \<open>
  First loop of \<^verbatim>\<open>sync()\<close> (lines 305-312): every master with a non-empty queue gets a
  \<^verbatim>\<open>SyncRpc\<close> for its latest log state (\<^verbatim>\<open>Tub::construct\<close> replaces a held one).
\<close>

fun sync_send :: "(nat \<times> 'l Master) list \<Rightarrow> (nat \<times> 'l Master) list \<times> 'l event list" where
  "sync_send [] = ([], [])"
| "sync_send ((k, m) # ms) =
     (let (ms', evs) = sync_send ms
      in if rpcs m \<noteq> []
         then ((k, m\<lparr>syncRpcHolder := Some (session m, lastestLogState m)\<rparr>) # ms',
               SyncSent (session m) (lastestLogState m) # evs)
         else ((k, m) # ms', evs))"

text \<open>First loop of \<^verbatim>\<open>efficientSync\<close> (lines 278-285).\<close>

fun efficientSync_send ::
  "nat \<Rightarrow> (nat \<times> 'l Master) list \<Rightarrow> (nat \<times> 'l Master) list \<times> 'l event list" where
  "efficientSync_send sessionToSkip [] = ([], [])"
| "efficientSync_send sessionToSkip ((k, m) # ms) =
     (let (ms', evs) = efficientSync_send sessionToSkip ms
      in if rpcs m \<noteq> [] \<and> session m \<noteq> sessionToSkip
         then ((k, m\<lparr>syncRpcHolder := Some (session m, lastestLogState m)\<rparr>) # ms',
               SyncSent (session m) (lastestLogState m) # evs)
         else ((k, m) # ms', evs))"

text \<open>
  Second loop, the same text in \<^verbatim>\<open>efficientSync\<close> (lines 287-295) and \<^verbatim>\<open>sync()\<close>
  (lines 314-322): every master holding a \<^verbatim>\<open>SyncRpc\<close> is waited for, its holder is
  destroyed and the log state behind \<^verbatim>\<open>newLogState\<close> is folded in. \<open>net s goal\<close> is how
  the RPC sent on session \<open>s\<close> with goal \<open>goal\<close> ends. \<^verbatim>\<open>newLogState\<close> is declared without
  an initialiser; \<open>uninit s\<close> is what it holds then. A throwing \<^verbatim>\<open>wait\<close> leaves the loop with
  this holder and all later ones still in place.
\<close>

fun sync_wait ::
  "('l::linorder \<Rightarrow> 'l \<Rightarrow> bool) \<Rightarrow> (nat \<Rightarrow> 'l \<Rightarrow> 'l SyncResponse) \<Rightarrow> (nat \<Rightarrow> 'l)
     \<Rightarrow> (nat \<times> 'l Master) list \<Rightarrow> store
     \<Rightarrow> (nat \<times> 'l Master) list \<times> store \<times> 'l event list \<times> outcome" where
  "sync_wait isSynced net uninit [] h = ([], h, [], Returned)"
| "sync_wait isSynced net uninit ((k, m) # ms) h =
     (case syncRpcHolder m of
        None \<Rightarrow>
          let (ms', h', evs, out) = sync_wait isSynced net uninit ms h
          in ((k, m) # ms', h', evs, out)
      | Some (s, goal) \<Rightarrow>
          (case SyncRpc_wait (net s goal) (uninit s) of
             Inl st \<Rightarrow> ((k, m) # ms, h, [], Threw st)
           | Inr (ok, newLogState) \<Rightarrow>
               let (m1, h1, ev1) =
                     Master_updateLogState isSynced newLogState (m\<lparr>syncRpcHolder := None\<rparr>) h;
                   (ms', h2, ev2, out) = sync_wait isSynced net uninit ms h1
               in ((k, m1) # ms', h2, ev1 @ ev2, out)))"

text \<open>\<^verbatim>\<open>sync()\<close> (lines 301-323) and \<^verbatim>\<open>efficientSync\<close> (lines 271-296).\<close>

definition sync ::
  "('l::linorder \<Rightarrow> 'l \<Rightarrow> bool) \<Rightarrow> (nat \<Rightarrow> 'l \<Rightarrow> 'l SyncResponse) \<Rightarrow> (nat \<Rightarrow> 'l)
     \<Rightarrow> 'l World \<Rightarrow> 'l World \<times> outcome" where
  "sync isSynced net uninit T =
     (let (ms1, ev1) = sync_send (masters T);
          (ms2, h, ev2, out) = sync_wait isSynced net uninit ms1 (counters T)
      in (T\<lparr>masters := ms2, counters := h, trace := trace T @ ev1 @ ev2\<rparr>, out))"

definition efficientSync ::
  "('l::linorder \<Rightarrow> 'l \<Rightarrow> bool) \<Rightarrow> (nat \<Rightarrow> 'l \<Rightarrow> 'l SyncResponse) \<Rightarrow> (nat \<Rightarrow> 'l)
     \<Rightarrow> nat \<Rightarrow> 'l World \<Rightarrow> 'l World \<times> outcome" where
  "efficientSync isSynced net uninit sessionToSkip T =
     (let (ms1, ev1) = efficientSync_send sessionToSkip (masters T);
          (ms2, h, ev2, out) = sync_wait isSynced net uninit ms1 (counters T)
      in (T\<lparr>masters := ms2, counters := h, trace := trace T @ ev1 @ ev2\<rparr>, out))"

section \<open>Asynchronous fan-in sync\<close>

text \<open>
  \<^verbatim>\<open>sync(callback)\<close> (lines 332-371). The count of masters with a non-empty queue is a C
  \<^verbatim>\<open>int\<close>; it is an unbounded integer here. The wrapper replaces the callback of
  \<^verbatim>\<open>rpcs.back()\<close>; the callback it replaces is not kept.
\<close>

definition setBackCallback :: "callback \<Rightarrow> 'l UnsyncedRpc list \<Rightarrow> 'l UnsyncedRpc list" where
  "setBackCallback cb q = butlast q @ [(last q)\<lparr>callback := cb\<rparr>]"

definition sync_callback :: "nat \<Rightarrow> 'l World \<Rightarrow> 'l World" where
  "sync_callback cb T =
     (let numMasters = int (length (filter (\<lambda>(k, m). rpcs m \<noteq> []) (masters T)))
      in if numMasters = 0 then T
         else
           let syncedMasterCounter = length (counters T)
           in T\<lparr>counters := counters T @ [Some 0],
                masters :=
                  map (\<lambda>(k, m).
                        if rpcs m = [] then (k, m)
                        else (k, m\<lparr>rpcs :=
                                setBackCallback (FanIn cb numMasters syncedMasterCounter)
                                  (rpcs m)\<rparr>))
                      (masters T)\<rparr>)"

section \<open>Observations on a list of events\<close>

text \<open>The callbacks of queue entries called, and the pointers freed, oldest first.\<close>

fun callbacksCalled :: "'l event list \<Rightarrow> callback list" where
  "callbacksCalled [] = []"
| "callbacksCalled (Callback cb # evs) = cb # callbacksCalled evs"
| "callbacksCalled (e # evs) = callbacksCalled evs"

fun freed :: "'l event list \<Rightarrow> nat option list" where
  "freed [] = []"
| "freed (Free p # evs) = p # freed evs"
| "freed (e # evs) = freed evs"

text \<open>An entry is covered by a log state when its position is synced with respect to it.\<close>

definition covered :: "('l \<Rightarrow> 'l \<Rightarrow> bool) \<Rightarrow> 'l \<Rightarrow> 'l UnsyncedRpc \<Rightarrow> bool" where
  "covered isSynced S rpc = isSynced (logPosition rpc) S"

text \<open>
  The events of the queue itself: what \<^verbatim>\<open>flushSession\<close> and \<^verbatim>\<open>updateLogState\<close> do
  entry by entry, without what happens inside a fan-in wrapper.
\<close>

fun queueEvents :: "'l event list \<Rightarrow> 'l event list" where
  "queueEvents [] = []"
| "queueEvents (FanInCallback k c # evs) = queueEvents evs"
| "queueEvents (Fault k # evs) = queueEvents evs"
| "queueEvents (e # evs) = e # queueEvents evs"

text \<open>
  An entry that \<^verbatim>\<open>flushSession\<close> gets past: a transaction prepare (popped at once), or a
  plain write whose retry ends with a status that \<^verbatim>\<open>wait\<close> accepts. The events of flushing
  one plain write are \<open>flushEvents\<close>.
\<close>

definition canFlush :: "('l UnsyncedRpc \<Rightarrow> Status) \<Rightarrow> 'l UnsyncedRpc \<Rightarrow> bool" where
  "canFlush retryStatus rpc =
     (txWithUnsyncedPrepare rpc \<noteq> None \<or> retryStatus rpc = STATUS_OK
        \<or> retryStatus rpc = STATUS_STALE_RPC)"

definition flushEvents :: "'l UnsyncedRpc \<Rightarrow> 'l event list" where
  "flushEvents rpc =
     [RetrySent (tableId rpc) (keyHash rpc) (request rpc), Callback (callback rpc),
      Free (data (request rpc))]"

section \<open>Fan-in rounds in a world\<close>

text \<open>
  All entries queued in any master; the entries whose callback is a wrapper over counter
  \<open>k\<close> (\<open>pending\<close> counts them); how often the wrapper over \<open>k\<close> has called its captured
  callback in a trace; and the condition that every queued wrapper points into the store.
\<close>

fun usesCounter :: "nat \<Rightarrow> callback \<Rightarrow> bool" where
  "usesCounter k (FanIn c n k') = (k' = k)"
| "usesCounter k (Client c) = False"
| "usesCounter k NoOp = False"

definition wrappers :: "nat \<Rightarrow> 'l UnsyncedRpc list \<Rightarrow> nat" where
  "wrappers k q = length (filter (\<lambda>r. usesCounter k (callback r)) q)"

definition queued :: "(nat \<times> 'l Master) list \<Rightarrow> 'l UnsyncedRpc list" where
  "queued ms = concat (map (\<lambda>(s, m). rpcs m) ms)"

definition pending :: "nat \<Rightarrow> 'l World \<Rightarrow> nat" where
  "pending k T = wrappers k (queued (masters T))"

fun delivered :: "nat \<Rightarrow> 'l event list \<Rightarrow> nat" where
  "delivered k [] = 0"
| "delivered k (FanInCallback k' c # evs) = (if k' = k then 1 else 0) + delivered k evs"
| "delivered k (e # evs) = delivered k evs"

definition wrappersAllocated :: "'l World \<Rightarrow> bool" where
  "wrappersAllocated T =
     list_all (\<lambda>r. case callback r of FanIn c n k \<Rightarrow> k < length (counters T) | _ \<Rightarrow> True)
       (queued (masters T))"

text \<open>
  The state of one fan-in round, for a counter cell \<open>c\<close>, \<open>p\<close> wrappers still queued and
  \<open>del\<close> deliveries seen, of which \<open>d\<close> were there before the round. While the counter
  lives nothing has been delivered, and counter plus queued wrappers is exactly \<open>N\<close>
  (\<open>Exactly\<close>: every wrapper that left a queue was called), at most \<open>N\<close> (\<open>AtMost\<close>), or
  less than \<open>N\<close> (\<open>Below\<close>: a wrapper left a queue without being called, so the counter can
  no longer reach \<open>N\<close>). Once the counter is deleted no wrapper is queued and one delivery was
  made.
\<close>

datatype bound = AtMost | Exactly | Below

definition fanIn :: "bound \<Rightarrow> int \<Rightarrow> nat \<Rightarrow> int option \<Rightarrow> nat \<Rightarrow> nat \<Rightarrow> bool" where
  "fanIn b N d c p del =
     (case c of
        Some v \<Rightarrow>
          0 \<le> v
          \<and> (case b of
               AtMost \<Rightarrow> v + int p \<le> N
             | Exactly \<Rightarrow> v + int p = N \<and> 0 < p
             | Below \<Rightarrow> v + int p < N)
          \<and> del = d
      | None \<Rightarrow> b \<noteq> Below \<and> p = 0 \<and> del = Suc d)"

definition roundInv :: "bound \<Rightarrow> nat \<Rightarrow> nat \<Rightarrow> int \<Rightarrow> nat \<Rightarrow> 'l World \<Rightarrow> bool" where
  "roundInv b k cb N d T =
     (k < length (counters T)
      \<and> list_all (\<lambda>r. usesCounter k (callback r) \<longrightarrow> callback r = FanIn cb N k)
          (queued (masters T))
      \<and> fanIn b N d (cell (counters T) k) (pending k T) (delivered k (trace T)))"

section \<open>Calls of the tracker's interface\<close>

text \<open>
  One call of the public interface, with what the network does during it: the statuses the
  retries end with, and the responses of the sync RPCs. The callback given to
  \<^verbatim>\<open>registerUnsynced\<close> and to \<^verbatim>\<open>sync(callback)\<close> is a client closure. An exception thrown
  by a call reaches the caller; the world is as the call left it.
\<close>

datatype 'l call =
    RegisterUnsynced nat ClientRequest "64 word" "64 word" "64 word" 'l nat
  | RegisterUnsyncedTx nat nat 'l
  | FlushSession nat "'l UnsyncedRpc \<Rightarrow> Status"
  | UpdateLogState nat 'l
  | EfficientSync nat "nat \<Rightarrow> 'l \<Rightarrow> 'l SyncResponse" "nat \<Rightarrow> 'l"
  | Sync "nat \<Rightarrow> 'l \<Rightarrow> 'l SyncResponse" "nat \<Rightarrow> 'l"
  | SyncCallback nat

fun step :: "('l::linorder \<Rightarrow> 'l \<Rightarrow> bool) \<Rightarrow> 'l \<Rightarrow> 'l call \<Rightarrow> 'l World \<Rightarrow> 'l World" where
  "step isSynced initial (RegisterUnsynced s req tid kh ver logPos cb) T =
     registerUnsynced isSynced initial s req tid kh ver logPos (Client cb) T"
| "step isSynced initial (RegisterUnsyncedTx s txTask logPos) T =
     registerUnsyncedTx isSynced initial s txTask logPos T"
| "step isSynced initial (FlushSession s retryStatus) T = fst (flushSession retryStatus s T)"
| "step isSynced initial (UpdateLogState s masterLogState) T =
     updateLogState isSynced s masterLogState T"
| "step isSynced initial (EfficientSync s net uninit) T =
     fst (efficientSync isSynced net uninit s T)"
| "step isSynced initial (Sync net uninit) T = fst (sync isSynced net uninit T)"
| "step isSynced initial (SyncCallback cb) T = sync_callback cb T"

fun run :: "('l::linorder \<Rightarrow> 'l \<Rightarrow> bool) \<Rightarrow> 'l \<Rightarrow> 'l call list \<Rightarrow> 'l World \<Rightarrow> 'l World" where
  "run isSynced initial [] T = T"
| "run isSynced initial (c # cs) T = run isSynced initial cs (step isSynced initial c T)"



section \<open>A sync round restricted to some peers\<close>

text \<open>
  The specification's description of \<^verbatim>\<open>efficientSync\<close>: \<^verbatim>\<open>sync()\<close> on the peers whose
  session differs from the one to skip, the skipped peers staying as they are.
  \<open>reinsert s ms us\<close> puts the masters \<open>us\<close> back at the places of \<open>ms\<close> that are not
  skipped.
\<close>

fun reinsert ::
  "nat \<Rightarrow> (nat \<times> 'l Master) list \<Rightarrow> (nat \<times> 'l Master) list \<Rightarrow> (nat \<times> 'l Master) list" where
  "reinsert s [] us = []"
| "reinsert s ((k, m) # ms) us =
     (if session m = s then (k, m) # reinsert s ms us
      else case us of [] \<Rightarrow> [] | u # us' \<Rightarrow> u # reinsert s ms us')"

definition sync_restricted ::
  "('l::linorder \<Rightarrow> 'l \<Rightarrow> bool) \<Rightarrow> (nat \<Rightarrow> 'l \<Rightarrow> 'l SyncResponse) \<Rightarrow> (nat \<Rightarrow> 'l)
     \<Rightarrow> nat \<Rightarrow> 'l World \<Rightarrow> 'l World \<times> outcome" where
  "sync_restricted isSynced net uninit s T =
     (let others = filter (\<lambda>(k, m). session m \<noteq> s) (masters T);
          (T', out) = sync isSynced net uninit (T\<lparr>masters := others\<rparr>)
      in (T'\<lparr>masters := reinsert s (masters T) (masters T')\<rparr>, out))"

section \<open>Auxiliary notions for the proofs\<close>


definition installed :: "callback \<Rightarrow> (nat \<times> 'l Master) list \<Rightarrow> (nat \<times> 'l Master) list" where
  "installed W ms =
     map (\<lambda>(k, m). if rpcs m = [] then (k, m)
                    else (k, m\<lparr>rpcs := setBackCallback W (rpcs m)\<rparr>)) ms"

definition alloc :: "nat \<Rightarrow> 'l UnsyncedRpc list \<Rightarrow> bool" where
  "alloc n q = (\<forall>r\<in>set q. case callback r of FanIn c n' k \<Rightarrow> k < n | _ \<Rightarrow> True)"

text \<open>
  No stored log state has decreased from one map of masters to another: every session
  that had a record still has one, with a log state at least as large.
\<close>

definition notDecreased ::
  "(nat \<times> ('l::linorder) Master) list \<Rightarrow> (nat \<times> 'l Master) list \<Rightarrow> bool" where
  "notDecreased ms ms' =
     (\<forall>s m. map_of ms s = Some m \<longrightarrow>
        (\<exists>m'. map_of ms' s = Some m' \<and> lastestLogState m \<le> lastestLogState m'))"

section \<open>Example data\<close>

text \<open>
  A plain write at a log position, with a client callback and a request buffer; a
  transaction prepare as the second overload of \<^verbatim>\<open>registerUnsynced\<close> queues it; and the
  tracker before any call.
\<close>

definition plainWrite :: "'l \<Rightarrow> nat \<Rightarrow> nat \<Rightarrow> 'l UnsyncedRpc" where
  "plainWrite pos cb ptr =
     \<lparr>request = \<lparr>data = Some ptr, sizeBytes = 8\<rparr>, tableId = 1, keyHash = 2, objVer = 3,
      txWithUnsyncedPrepare = None, logPosition = pos, callback = Client cb\<rparr>"

definition txPrepare :: "'l \<Rightarrow> nat \<Rightarrow> 'l UnsyncedRpc" where
  "txPrepare pos txTask =
     \<lparr>request = \<lparr>data = None, sizeBytes = 0\<rparr>, tableId = 0, keyHash = 0, objVer = 0,
      txWithUnsyncedPrepare = Some txTask, logPosition = pos, callback = NoOp\<rparr>"

definition emptyWorld :: "'l World" where
  "emptyWorld = \<lparr>masters = [], counters = [], trace = []\<rparr>"

text \<open>
  Peers with log positions as natural numbers: the peer of the specification's scenario
  with writes at 10, 20 and 30; a peer holding a write at 30 with stored log state 20; a
  peer holding one transaction prepare; and the world made of one peer.
\<close>

definition peerA :: "nat Master" where
  "peerA = \<lparr>session = 1, rpcs = [plainWrite 10 1 101, plainWrite 20 2 102, plainWrite 30 3 103],
            lastestLogState = 5, syncRpcHolder = None\<rparr>"

definition peerB :: "nat Master" where
  "peerB = \<lparr>session = 1, rpcs = [plainWrite 30 3 103], lastestLogState = 20,
            syncRpcHolder = None\<rparr>"

definition peerTx :: "nat Master" where
  "peerTx = \<lparr>session = 1, rpcs = [txPrepare 10 7], lastestLogState = 5,
            syncRpcHolder = None\<rparr>"

definition worldOf :: "'l Master \<Rightarrow> 'l World" where
  "worldOf m = \<lparr>masters = [(session m, m)], counters = [], trace = []\<rparr>"

text \<open>
  A world for the specification's second scenario: two peers, one pending write each.
\<close>

definition twoPeers :: "nat World" where
  "twoPeers =
     \<lparr>masters =
        [(1, \<lparr>session = 1, rpcs = [plainWrite 10 1 101], lastestLogState = 5,
               syncRpcHolder = None\<rparr>),
         (2, \<lparr>session = 2, rpcs = [plainWrite 10 2 102], lastestLogState = 5,
               syncRpcHolder = None\<rparr>)],
      counters = [], trace = []\<rparr>"

text \<open>
  Two peers with one write each, registered through the interface under the reading of
  \<^verbatim>\<open>isSynced\<close> as \<open><\<close>; a network in which the sync RPC to session 1 ends with an error
  status; and one in which every master reports log state 40.
\<close>

definition twoRegistered :: "nat World" where
  "twoRegistered =
     registerUnsynced (<) 0 2 \<lparr>data = Some 102, sizeBytes = 8\<rparr> 1 2 3 10 (Client 2)
       (registerUnsynced (<) 0 1 \<lparr>data = Some 101, sizeBytes = 8\<rparr> 1 2 3 10 (Client 1)
          emptyWorld)"

definition firstFails :: "nat \<Rightarrow> nat \<Rightarrow> nat SyncResponse" where
  "firstFails s goal = (if s = 1 then FINISHED (STATUS_OTHER 3) 0 else FINISHED STATUS_OK 40)"

definition allSynced :: "nat \<Rightarrow> nat \<Rightarrow> nat SyncResponse" where
  "allSynced s goal = FINISHED STATUS_OK 40"

text \<open>
  The same two peers with the map visited in the opposite order, session 2 first, and a
  network in which the sync RPC to session 2 ends with an error status.
\<close>

definition twoRegisteredRev :: "nat World" where
  "twoRegisteredRev =
     registerUnsynced (<) 0 1 \<lparr>data = Some 101, sizeBytes = 8\<rparr> 1 2 3 10 (Client 1)
       (registerUnsynced (<) 0 2 \<lparr>data = Some 102, sizeBytes = 8\<rparr> 1 2 3 10 (Client 2)
          emptyWorld)"

definition secondFails :: "nat \<Rightarrow> nat \<Rightarrow> nat SyncResponse" where
  "secondFails s goal = (if s = 2 then FINISHED (STATUS_OTHER 3) 0 else FINISHED STATUS_OK 40)"

section \<open>Properties of Master::updateLogState\<close>

lemma callbacksCalled_append:
  "callbacksCalled (xs @ ys) = callbacksCalled xs @ callbacksCalled ys"
  by (induction xs rule: callbacksCalled.induct) simp_all

lemma freed_append: "freed (xs @ ys) = freed xs @ freed ys"
  by (induction xs rule: freed.induct) simp_all

lemma invoke_no_Callback:
  "invoke cb h = (h', evs) \<Longrightarrow> callbacksCalled evs = [] \<and> freed evs = []"
  by (cases cb) (auto split: option.splits if_splits)

lemma loop_shape:
  "updateLogState_loop isSynced S q h = (q', h', evs) \<Longrightarrow>
     q' = dropWhile (covered isSynced S) q \<and>
     callbacksCalled evs = map callback (takeWhile (covered isSynced S) q) \<and>
     freed evs = map (\<lambda>r. data (request r))
        (filter (\<lambda>r. txWithUnsyncedPrepare r = None) (takeWhile (covered isSynced S) q))"
proof (induction q arbitrary: h q' h' evs)
  case Nil
  then show ?case by simp
next
  case (Cons rpc rest)
  show ?case
  proof (cases "isSynced (logPosition rpc) S")
    case False
    with Cons.prems show ?thesis by (auto simp: covered_def)
  next
    case True
    obtain h1 ev1 where i: "invoke (callback rpc) h = (h1, ev1::'a event list)"
      by (cases "invoke (callback rpc) h :: store \<times> 'a event list")
    obtain q2 h2 ev3 where l: "updateLogState_loop isSynced S rest h1 = (q2, h2, ev3)"
      by (cases "updateLogState_loop isSynced S rest h1")
    from Cons.IH[OF l] invoke_no_Callback[OF i] Cons.prems True i l
    show ?thesis
      by (auto simp: covered_def callbacksCalled_append freed_append)
  qed
qed

lemma loop_front_not_covered:
  assumes "updateLogState_loop isSynced S q h = (q', h', evs)"
  shows "case q' of [] \<Rightarrow> True | r # rest \<Rightarrow> \<not> isSynced (logPosition r) S"
proof (cases q')
  case Nil
  then show ?thesis by simp
next
  case (Cons r rest)
  have "q' = dropWhile (covered isSynced S) q" using loop_shape[OF assms] by simp
  with Cons have "\<not> covered isSynced S r" by (metis hd_dropWhile list.sel(1) list.distinct(1))
  with Cons show ?thesis by (simp add: covered_def)
qed

lemma sorted_split:
  assumes "sorted_wrt (\<lambda>a b. f a \<le> f b) q" and "\<And>p r. p \<le> r \<Longrightarrow> P r \<Longrightarrow> P p"
  shows "takeWhile (\<lambda>x. P (f x)) q = filter (\<lambda>x. P (f x)) q
       \<and> dropWhile (\<lambda>x. P (f x)) q = filter (\<lambda>x. \<not> P (f x)) q"
  using assms(1)
proof (induction q)
  case Nil then show ?case by simp
next
  case (Cons a q)
  show ?case
  proof (cases "P (f a)")
    case True with Cons show ?thesis by simp
  next
    case False
    have "\<forall>x\<in>set q. \<not> P (f x)" using Cons.prems False assms(2) by auto
    then have "filter (\<lambda>x. P (f x)) q = []" "filter (\<lambda>x. \<not> P (f x)) q = q"
      by (simp_all add: filter_empty_conv filter_id_conv)
    with False show ?thesis by simp
  qed
qed

lemma Master_updateLogState_shape:
  fixes isSynced :: "'l::linorder \<Rightarrow> 'l \<Rightarrow> bool"
  assumes "Master_updateLogState isSynced S m h = (m', h', evs)"
  shows "updateLogState_loop isSynced S (rpcs m) h = (rpcs m', h', evs)"
    and "lastestLogState m' = (if lastestLogState m < S then S else lastestLogState m)"
    and "session m' = session m" and "syncRpcHolder m' = syncRpcHolder m"
    and "m' = m\<lparr>lastestLogState := lastestLogState m', rpcs := rpcs m'\<rparr>"
  using assms
  by (auto simp: Master_updateLogState_def Let_def split: prod.splits if_splits)

lemma peerA_run:
  "Master_updateLogState (\<le>) 20 peerA [] =
      (peerA\<lparr>lastestLogState := 20, rpcs := [plainWrite 30 3 103]\<rparr>, [],
       [Callback (Client 1), Free (Some 101), Callback (Client 2), Free (Some 102)])"
  by (simp add: Master_updateLogState_def peerA_def plainWrite_def)

text \<open>
  C1. \<^verbatim>\<open>Master::updateLogState\<close> with state \<open>S\<close> removes the longest prefix of the queue whose
  entries are covered by \<open>S\<close> and nothing else: the queue is that prefix followed by what
  remains, the entry now at the front (if any) is not covered, the callbacks called are those
  of the removed entries, once each and in queue order, the pointers freed are the request
  buffers of the removed entries that are not transaction prepares, and every entry not
  covered by \<open>S\<close> is still queued. When the queue is in non-decreasing position order (and an
  entry below a covered one is covered), the removed entries are exactly the covered ones.
\<close>

theorem Master_updateLogState_removes_synced_prefix:
  fixes isSynced :: "'l::linorder \<Rightarrow> 'l \<Rightarrow> bool"
  assumes run: "Master_updateLogState isSynced S m h = (m', h', evs)"
  shows "rpcs m = takeWhile (covered isSynced S) (rpcs m) @ rpcs m'
       \<and> rpcs m' = dropWhile (covered isSynced S) (rpcs m)
       \<and> (case rpcs m' of [] \<Rightarrow> True | r # rest \<Rightarrow> \<not> covered isSynced S r)
       \<and> callbacksCalled evs = map callback (takeWhile (covered isSynced S) (rpcs m))
       \<and> freed evs = map (\<lambda>r. data (request r))
            (filter (\<lambda>r. txWithUnsyncedPrepare r = None)
               (takeWhile (covered isSynced S) (rpcs m)))
       \<and> filter (\<lambda>r. \<not> covered isSynced S r) (rpcs m')
            = filter (\<lambda>r. \<not> covered isSynced S r) (rpcs m)
       \<and> (sorted_wrt (\<lambda>a b. logPosition a \<le> logPosition b) (rpcs m)
            \<and> (\<forall>p q. p \<le> q \<and> isSynced q S \<longrightarrow> isSynced p S)
          \<longrightarrow> takeWhile (covered isSynced S) (rpcs m) = filter (covered isSynced S) (rpcs m)
              \<and> rpcs m' = filter (\<lambda>r. \<not> covered isSynced S r) (rpcs m))"
proof -
  let ?P = "covered isSynced S"
  note l = loop_shape[OF Master_updateLogState_shape(1)[OF run]]
  have d: "rpcs m' = dropWhile ?P (rpcs m)" using l by simp
  have a: "rpcs m = takeWhile ?P (rpcs m) @ rpcs m'" using d by simp
  have hdd: "case rpcs m' of [] \<Rightarrow> True | r # rest \<Rightarrow> \<not> ?P r"
    using loop_front_not_covered[OF Master_updateLogState_shape(1)[OF run]]
    by (simp add: covered_def split: list.splits)
  have f: "filter (\<lambda>r. \<not> ?P r) (rpcs m') = filter (\<lambda>r. \<not> ?P r) (rpcs m)"
  proof -
    have "filter (\<lambda>r. \<not> ?P r) (takeWhile ?P (rpcs m)) = []"
      by (auto simp: filter_empty_conv dest: set_takeWhileD)
    then have "filter (\<lambda>r. \<not> ?P r) (takeWhile ?P (rpcs m) @ rpcs m')
                 = filter (\<lambda>r. \<not> ?P r) (rpcs m')"
      by simp
    with a show ?thesis by simp
  qed
  have s: "takeWhile ?P (rpcs m) = filter ?P (rpcs m)
           \<and> rpcs m' = filter (\<lambda>r. \<not> ?P r) (rpcs m)"
    if srt: "sorted_wrt (\<lambda>a b. logPosition a \<le> logPosition b) (rpcs m)"
      and down: "\<forall>p q. p \<le> q \<and> isSynced q S \<longrightarrow> isSynced p S"
  proof -
    have pe: "?P = (\<lambda>x. isSynced (logPosition x) S)" by (auto simp: covered_def fun_eq_iff)
    have "takeWhile (\<lambda>x. isSynced (logPosition x) S) (rpcs m)
            = filter (\<lambda>x. isSynced (logPosition x) S) (rpcs m)
        \<and> dropWhile (\<lambda>x. isSynced (logPosition x) S) (rpcs m)
            = filter (\<lambda>x. \<not> isSynced (logPosition x) S) (rpcs m)"
      by (rule sorted_split[OF srt]) (use down in blast)
    then show ?thesis unfolding d pe by simp
  qed
  show ?thesis using a d hdd l f s by blast
qed

theorem Master_updateLogState_removes_synced_prefix_witness:
  "sorted_wrt (\<lambda>a b. logPosition a \<le> logPosition b) (rpcs peerA)
   \<and> rpcs peerA = [plainWrite 10 1 101, plainWrite 20 2 102] @ [plainWrite 30 3 103]
   \<and> takeWhile (covered (\<le>) 20) (rpcs peerA) = filter (covered (\<le>) 20) (rpcs peerA)
   \<and> callbacksCalled
        [Callback (Client 1), Free (Some 101), Callback (Client 2), Free (Some 102) :: nat event]
       = map callback (takeWhile (covered (\<le>) 20) (rpcs peerA))"
proof -
  have srt: "sorted_wrt (\<lambda>a b. logPosition a \<le> logPosition b) (rpcs peerA)"
    by (simp add: peerA_def plainWrite_def)
  have down: "\<forall>p q::nat. p \<le> q \<and> q \<le> 20 \<longrightarrow> p \<le> 20" by simp
  from Master_updateLogState_removes_synced_prefix[OF peerA_run] srt down
  show ?thesis by (simp add: peerA_def)
qed

section \<open>Properties of the tracker's operations\<close>

text \<open>
  C9. The tracker's \<^verbatim>\<open>updateLogState\<close> for a session pointer that has no master record
  returns the world as it was: no record is created, and the map, every queue, every stored
  log state, the counters and the trace are unchanged.
\<close>

theorem updateLogState_unknown_session:
  fixes isSynced :: "'l::linorder \<Rightarrow> 'l \<Rightarrow> bool"
  assumes "map_of (masters T) sessionPtr = None"
  shows "updateLogState isSynced sessionPtr masterLogState T = T"
  using assms by (simp add: updateLogState_def)

theorem updateLogState_unknown_session_witness:
  "map_of (masters \<lparr>masters = [(1, peerA)], counters = [], trace = []\<rparr>) 2 = None
   \<and> updateLogState (\<le>) 2 40 \<lparr>masters = [(1, peerA)], counters = [], trace = []\<rparr>
       = \<lparr>masters = [(1, peerA)], counters = [], trace = []\<rparr>"
proof -
  have h: "map_of (masters \<lparr>masters = [(1, peerA)], counters = [], trace = []\<rparr>) (2::nat) = None"
    by simp
  from updateLogState_unknown_session[OF h, of "(\<le>)" 40] h show ?thesis by simp
qed

section \<open>Properties of the retry exchange\<close>

text \<open>
  C7. \<^verbatim>\<open>RetryUnsyncedRpc::wait\<close> returns normally exactly when the response status is
  \<^verbatim>\<open>STATUS_OK\<close> or \<^verbatim>\<open>STATUS_STALE_RPC\<close>, and throws, with the status received, exactly for
  every other status.
\<close>

theorem RetryUnsyncedRpc_wait_status:
  "(RetryUnsyncedRpc_wait status = Inr ()) = (status = STATUS_OK \<or> status = STATUS_STALE_RPC)
   \<and> (RetryUnsyncedRpc_wait status = Inl status)
       = (status \<noteq> STATUS_OK \<and> status \<noteq> STATUS_STALE_RPC)
   \<and> RetryUnsyncedRpc_wait STATUS_OK = RetryUnsyncedRpc_wait STATUS_STALE_RPC"
  by (simp add: RetryUnsyncedRpc_wait_def)

section \<open>Properties of registerUnsynced\<close>

lemma getOrInit_lookup:
  assumes "getOrInitMasterRecord initial s ms0 = (m, ms)"
  shows "map_of ms s = Some m"
  using assms
  by (auto simp: getOrInitMasterRecord_def Let_def map_add_def split: option.splits)

lemma loop_all_covered:
  assumes "\<forall>r\<in>set q. isSynced (logPosition r) S"
  shows "\<exists>h' evs. updateLogState_loop isSynced S q h = ([], h', evs)"
  using assms
proof (induction q arbitrary: h)
  case Nil then show ?case by simp
next
  case (Cons r q)
  obtain h1 ev1 where i: "invoke (callback r) h = (h1, ev1::'a event list)"
    by (cases "invoke (callback r) h :: store \<times> 'a event list")
  from Cons.IH[of h1] Cons.prems obtain h' evs where
    "updateLogState_loop isSynced S q h1 = ([], h', evs)" by auto
  with i Cons.prems show ?case by simp
qed

lemma dropWhile_snoc_last:
  assumes "dropWhile P (q @ [x]) \<noteq> []"
  shows "last (dropWhile P (q @ [x])) = x"
  using assms by (induction q) (auto split: if_splits)

lemma takeWhile_snoc:
  "takeWhile P (q @ [x]) = (if (\<forall>r\<in>set q. P r) \<and> P x then q @ [x] else takeWhile P q)"
  by (induction q) auto

text \<open>
  C3, as the code has it. \<^verbatim>\<open>registerUnsynced\<close> appends the new write and runs
  \<^verbatim>\<open>Master::updateLogState\<close> with the write's own \<^verbatim>\<open>logPos\<close>; the stored log state is
  raised to it but is not what entries are compared with. So the new write is resolved
  during the call exactly when \<^verbatim>\<open>logPos\<close> covers itself and every entry queued ahead of the
  write: then the queue is left empty and the last callback called is the new one. Otherwise
  the write stays at the back of the queue and its callback is not among those called for
  the entries removed.
\<close>

theorem registerUnsynced_resolves_when_covered_by_logPos:
  fixes isSynced :: "'l::linorder \<Rightarrow> 'l \<Rightarrow> bool"
  assumes g: "getOrInitMasterRecord initial s (masters T) = (m, ms)"
    and T': "T' = registerUnsynced isSynced initial s req tid kh ver logPos cb T"
  shows "\<exists>m'. map_of (masters T') s = Some m'
          \<and> lastestLogState m' = max (lastestLogState m) logPos
          \<and> take (length (trace T)) (trace T') = trace T
          \<and> (if isSynced logPos logPos \<and> (\<forall>r\<in>set (rpcs m). isSynced (logPosition r) logPos)
              then rpcs m' = []
                 \<and> callbacksCalled (drop (length (trace T)) (trace T'))
                     = map callback (rpcs m) @ [cb]
              else rpcs m' \<noteq> []
                 \<and> last (rpcs m') =
                      \<lparr>request = req, tableId = tid, keyHash = kh, objVer = ver,
                       txWithUnsyncedPrepare = None, logPosition = logPos, callback = cb\<rparr>
                 \<and> callbacksCalled (drop (length (trace T)) (trace T'))
                     = map callback (takeWhile (covered isSynced logPos) (rpcs m)))"
proof -
  let ?new = "\<lparr>request = req, tableId = tid, keyHash = kh, objVer = ver,
               txWithUnsyncedPrepare = None, logPosition = logPos, callback = cb\<rparr>"
  let ?m1 = "m\<lparr>rpcs := rpcs m @ [?new]\<rparr>"
  obtain m2 h evs where u: "Master_updateLogState isSynced logPos ?m1 (counters T) = (m2, h, evs)"
    by (cases "Master_updateLogState isSynced logPos ?m1 (counters T)")
  have T'eq: "T' = T\<lparr>masters := AList.update s m2 ms, counters := h, trace := trace T @ evs\<rparr>"
    using g u T' by (simp add: registerUnsynced_def)
  have look: "map_of (masters T') s = Some m2" by (simp add: T'eq update_conv')
  note sh = Master_updateLogState_shape[OF u]
  note ls = loop_shape[OF sh(1)]
  have mx: "lastestLogState m2 = max (lastestLogState m) logPos" using sh(2) by (auto simp: max_def)
  have tr: "take (length (trace T)) (trace T') = trace T"
    and dr: "drop (length (trace T)) (trace T') = evs" by (simp_all add: T'eq)
  let ?P = "covered isSynced logPos"
  have q2: "rpcs m2 = dropWhile ?P (rpcs m @ [?new])" using ls by simp
  have cc: "callbacksCalled evs = map callback (takeWhile ?P (rpcs m @ [?new]))" using ls by simp
  have Pnew: "?P ?new = isSynced logPos logPos" by (simp add: covered_def)
  have Pall: "(\<forall>r\<in>set (rpcs m). ?P r) = (\<forall>r\<in>set (rpcs m). isSynced (logPosition r) logPos)"
    by (simp add: covered_def)
  show ?thesis
  proof (cases "isSynced logPos logPos \<and> (\<forall>r\<in>set (rpcs m). isSynced (logPosition r) logPos)")
    case True
    then have "\<forall>r\<in>set (rpcs m @ [?new]). ?P r" by (auto simp: covered_def)
    then have "dropWhile ?P (rpcs m @ [?new]) = []" "takeWhile ?P (rpcs m @ [?new]) = rpcs m @ [?new]"
      by (simp_all add: takeWhile_eq_all_conv)
    with q2 cc have then_part: "rpcs m2 = [] \<and> callbacksCalled evs = map callback (rpcs m) @ [cb]"
      by simp
    show ?thesis
      apply (rule exI[of _ m2])
      apply (simp only: if_P[OF True] dr)
      using look mx tr then_part by blast
  next
    case False
    then have ex: "\<not> ((\<forall>r\<in>set (rpcs m). ?P r) \<and> ?P ?new)" using Pnew Pall by blast
    then have ne: "dropWhile ?P (rpcs m @ [?new]) \<noteq> []"
      by (auto simp: dropWhile_eq_Nil_conv)
    have tw: "takeWhile ?P (rpcs m @ [?new]) = takeWhile ?P (rpcs m)"
      using ex by (simp only: takeWhile_snoc if_False)
    from q2 cc ne tw dropWhile_snoc_last[OF ne]
    have else_part: "rpcs m2 \<noteq> [] \<and> last (rpcs m2) = ?new
        \<and> callbacksCalled evs = map callback (takeWhile ?P (rpcs m))"
      by simp
    show ?thesis
      apply (rule exI[of _ m2])
      apply (simp only: if_not_P[OF False] dr)
      using look mx tr else_part by blast
  qed
qed

theorem registerUnsynced_resolves_when_covered_by_logPos_witness:
  "map_of (masters (registerUnsynced (\<le>) 0 1 \<lparr>data = Some 101, sizeBytes = 8\<rparr> 1 2 3 (10::nat)
            (Client 1) emptyWorld)) 1
     = Some \<lparr>session = 1, rpcs = [], lastestLogState = 10, syncRpcHolder = None\<rparr>
   \<and> callbacksCalled (trace (registerUnsynced (\<le>) 0 1 \<lparr>data = Some 101, sizeBytes = 8\<rparr> 1 2 3
            (10::nat) (Client 1) emptyWorld)) = [Client 1]"
proof -
  have g: "getOrInitMasterRecord (0::nat) 1 (masters emptyWorld)
      = (\<lparr>session = 1, rpcs = [], lastestLogState = 0, syncRpcHolder = None\<rparr>,
         [(1, \<lparr>session = 1, rpcs = [], lastestLogState = 0, syncRpcHolder = None\<rparr>)])"
    by (simp add: getOrInitMasterRecord_def emptyWorld_def Let_def)
  from registerUnsynced_resolves_when_covered_by_logPos[OF g refl,
      of "(\<le>)" "\<lparr>data = Some 101, sizeBytes = 8\<rparr>" 1 2 3 10 "Client 1"]
  show ?thesis
    by (simp add: registerUnsynced_def getOrInitMasterRecord_def emptyWorld_def Let_def
        Master_updateLogState_def)
qed

text \<open>
  C3 as stated fails. With coverage read as \<open>\<le>\<close>: a peer holds a write at position 30 and
  stored log state 20; a write registered at position 15 is covered by the stored state, yet
  it is queued behind 30 and no callback is called. With coverage read as \<open><\<close>, from the
  empty tracker: a write at 10 is registered, \<^verbatim>\<open>updateLogState\<close> with 40 resolves it and stores
  40; a write then registered at 15 is covered by the stored state, and stays queued.
\<close>

theorem registerUnsynced_covered_by_stored_counterexample:
  "(15::nat) \<le> lastestLogState peerB
   \<and> registerUnsynced (\<le>) 0 1 \<lparr>data = Some 104, sizeBytes = 8\<rparr> 1 2 3 15 (Client 4)
        (worldOf peerB)
      = \<lparr>masters = [(1, peerB\<lparr>rpcs := [plainWrite 30 3 103, plainWrite 15 4 104]\<rparr>)],
         counters = [], trace = []\<rparr>
   \<and> updateLogState (<) 1 40
        (registerUnsynced (<) 0 1 \<lparr>data = Some 101, sizeBytes = 8\<rparr> 1 2 3 (10::nat) (Client 1)
           emptyWorld)
      = \<lparr>masters = [(1, \<lparr>session = 1, rpcs = [], lastestLogState = 40, syncRpcHolder = None\<rparr>)],
         counters = [], trace = [Callback (Client 1), Free (Some 101)]\<rparr>
   \<and> (15::nat) < 40
   \<and> registerUnsynced (<) 0 1 \<lparr>data = Some 102, sizeBytes = 8\<rparr> 1 2 3 15 (Client 2)
        (updateLogState (<) 1 40
          (registerUnsynced (<) 0 1 \<lparr>data = Some 101, sizeBytes = 8\<rparr> 1 2 3 (10::nat) (Client 1)
             emptyWorld))
      = \<lparr>masters = [(1, \<lparr>session = 1, rpcs = [plainWrite 15 2 102], lastestLogState = 40,
                         syncRpcHolder = None\<rparr>)],
         counters = [], trace = [Callback (Client 1), Free (Some 101)]\<rparr>"
  by (simp add: registerUnsynced_def updateLogState_def getOrInitMasterRecord_def emptyWorld_def Let_def
      Master_updateLogState_def peerB_def worldOf_def plainWrite_def)

section \<open>Properties of flushSession\<close>

lemma queueEvents_append: "queueEvents (xs @ ys) = queueEvents xs @ queueEvents ys"
  by (induction xs rule: queueEvents.induct) simp_all

lemma invoke_queueEvents: "invoke cb h = (h', evs) \<Longrightarrow> queueEvents evs = []"
  by (cases cb) (auto split: option.splits if_splits)

lemma flushSession_loop_shape:
  assumes "flushSession_loop rs q h = (q', h', evs, out)"
  shows "q' = dropWhile (canFlush rs) q
       \<and> queueEvents evs =
           concat (map flushEvents
             (filter (\<lambda>r. txWithUnsyncedPrepare r = None) (takeWhile (canFlush rs) q)))
           @ (case q' of [] \<Rightarrow> [] | r # rest \<Rightarrow> [RetrySent (tableId r) (keyHash r) (request r)])
       \<and> out = (case q' of [] \<Rightarrow> Returned | r # rest \<Rightarrow> Threw (rs r))"
  using assms
proof (induction q arbitrary: h q' h' evs out)
  case Nil
  then show ?case by simp
next
  case (Cons r q)
  show ?case
  proof (cases "txWithUnsyncedPrepare r \<noteq> None")
    case True
    with Cons.prems have "flushSession_loop rs q h = (q', h', evs, out)" by simp
    moreover from True have "canFlush rs r" by (simp add: canFlush_def)
    ultimately show ?thesis using Cons.IH True by auto
  next
    case plain: False
    show ?thesis
    proof (cases "rs r = STATUS_OK \<or> rs r = STATUS_STALE_RPC")
      case False
      then have w: "RetryUnsyncedRpc_wait (rs r) = Inl (rs r)"
        by (simp add: RetryUnsyncedRpc_wait_def)
      from False plain have nf: "\<not> canFlush rs r" by (simp add: canFlush_def)
      from Cons.prems plain w nf show ?thesis by auto
    next
      case True
      then have w: "RetryUnsyncedRpc_wait (rs r) = Inr ()"
        by (auto simp: RetryUnsyncedRpc_wait_def)
      from True have cf: "canFlush rs r" by (auto simp: canFlush_def)
      obtain h1 ev1 where i: "invoke (callback r) h = (h1, ev1::'a event list)"
        by (cases "invoke (callback r) h :: store \<times> 'a event list")
      obtain q2 h2 ev2 out2 where l: "flushSession_loop rs q h1 = (q2, h2, ev2, out2)"
        by (cases "flushSession_loop rs q h1")
      from Cons.prems plain w i l have
        res: "q' = q2" "h' = h2" "out = out2"
          "evs = RetrySent (tableId r) (keyHash r) (request r) # Callback (callback r)
                  # ev1 @ Free (data (request r)) # ev2"
        by auto
      from Cons.IH[OF l] invoke_queueEvents[OF i] res cf plain
      show ?thesis by (simp add: queueEvents_append flushEvents_def)
    qed
  qed
qed

lemma list_all_dropWhile: "list_all P q \<Longrightarrow> dropWhile P q = []"
  by (simp add: list_all_iff)

lemma list_all_takeWhile: "list_all P q \<Longrightarrow> takeWhile P q = q"
  by (simp add: list_all_iff takeWhile_eq_all_conv)

text \<open>
  C5, as the code has it. On a session without a record \<^verbatim>\<open>flushSession\<close> changes nothing. On
  a known session it works through the queue in order for as long as it gets past the
  entries: for every plain write a retry is sent and waited for, the entry's callback is
  called and its request buffer freed; a transaction prepare is popped with no retry, no
  callback and no free. The first plain write whose retry ends with another status than
  \<^verbatim>\<open>STATUS_OK\<close> or \<^verbatim>\<open>STATUS_STALE_RPC\<close> stops the drain: its retry was sent, the exception
  leaves with it still at the front. The record stays in the map, all other records are
  untouched; if every entry can be flushed the queue is empty at the end.
\<close>

theorem flushSession_drains_in_order:
  "(map_of (masters T) s = None \<longrightarrow> flushSession rs s T = (T, Returned))
   \<and> (\<forall>m. map_of (masters T) s = Some m \<longrightarrow>
        (case flushSession rs s T of (T', out) \<Rightarrow>
           map_of (masters T') s = Some (m\<lparr>rpcs := dropWhile (canFlush rs) (rpcs m)\<rparr>)
           \<and> map fst (masters T') = map fst (masters T)
           \<and> (\<forall>s'. s' \<noteq> s \<longrightarrow> map_of (masters T') s' = map_of (masters T) s')
           \<and> take (length (trace T)) (trace T') = trace T
           \<and> queueEvents (drop (length (trace T)) (trace T')) =
               concat (map flushEvents
                 (filter (\<lambda>r. txWithUnsyncedPrepare r = None)
                    (takeWhile (canFlush rs) (rpcs m))))
               @ (case dropWhile (canFlush rs) (rpcs m) of [] \<Rightarrow> []
                  | r # rest \<Rightarrow> [RetrySent (tableId r) (keyHash r) (request r)])
           \<and> out = (case dropWhile (canFlush rs) (rpcs m) of [] \<Rightarrow> Returned
                    | r # rest \<Rightarrow> Threw (rs r))
           \<and> (list_all (canFlush rs) (rpcs m) \<longrightarrow>
                map_of (masters T') s = Some (m\<lparr>rpcs := []\<rparr>) \<and> out = Returned
                \<and> queueEvents (drop (length (trace T)) (trace T')) =
                    concat (map flushEvents
                      (filter (\<lambda>r. txWithUnsyncedPrepare r = None) (rpcs m))))))"
proof (intro conjI allI impI)
  assume "map_of (masters T) s = None"
  then show "flushSession rs s T = (T, Returned)" by (simp add: flushSession_def)
next
  fix m assume look: "map_of (masters T) s = Some m"
  obtain q h evs out where l: "flushSession_loop rs (rpcs m) (counters T) = (q, h, evs, out)"
    by (cases "flushSession_loop rs (rpcs m) (counters T)")
  have f: "flushSession rs s T =
      (T\<lparr>masters := AList.update s (m\<lparr>rpcs := q\<rparr>) (masters T), counters := h,
         trace := trace T @ evs\<rparr>, out)"
    using look l by (simp add: flushSession_def)
  note sh = flushSession_loop_shape[OF l]
  have keys: "map fst (AList.update s (m\<lparr>rpcs := q\<rparr>) (masters T)) = map fst (masters T)"
    using look by (simp add: update_keys map_of_eq_None_iff[symmetric]) 
  show "case flushSession rs s T of (T', out) \<Rightarrow>
           map_of (masters T') s = Some (m\<lparr>rpcs := dropWhile (canFlush rs) (rpcs m)\<rparr>)
           \<and> map fst (masters T') = map fst (masters T)
           \<and> (\<forall>s'. s' \<noteq> s \<longrightarrow> map_of (masters T') s' = map_of (masters T) s')
           \<and> take (length (trace T)) (trace T') = trace T
           \<and> queueEvents (drop (length (trace T)) (trace T')) =
               concat (map flushEvents
                 (filter (\<lambda>r. txWithUnsyncedPrepare r = None)
                    (takeWhile (canFlush rs) (rpcs m))))
               @ (case dropWhile (canFlush rs) (rpcs m) of [] \<Rightarrow> []
                  | r # rest \<Rightarrow> [RetrySent (tableId r) (keyHash r) (request r)])
           \<and> out = (case dropWhile (canFlush rs) (rpcs m) of [] \<Rightarrow> Returned
                    | r # rest \<Rightarrow> Threw (rs r))
           \<and> (list_all (canFlush rs) (rpcs m) \<longrightarrow>
                map_of (masters T') s = Some (m\<lparr>rpcs := []\<rparr>) \<and> out = Returned
                \<and> queueEvents (drop (length (trace T)) (trace T')) =
                    concat (map flushEvents
                      (filter (\<lambda>r. txWithUnsyncedPrepare r = None) (rpcs m))))"
    unfolding f using sh keys
    by (simp add: update_conv' list_all_dropWhile list_all_takeWhile)
qed

theorem flushSession_drains_in_order_witness:
  "flushSession (\<lambda>r. STATUS_OK) 2 (worldOf peerA) = (worldOf peerA, Returned)
   \<and> flushSession (\<lambda>r. STATUS_OK) 1 (worldOf peerA)
      = (\<lparr>masters = [(1, peerA\<lparr>rpcs := []\<rparr>)], counters = [],
          trace = concat (map flushEvents (rpcs peerA))\<rparr>, Returned)"
  using flushSession_drains_in_order[of "worldOf peerA" 2 "\<lambda>r. STATUS_OK"]
    flushSession_drains_in_order[of "worldOf peerA" 1 "\<lambda>r. STATUS_OK"]
  by (simp add: flushSession_def peerA_def plainWrite_def RetryUnsyncedRpc_wait_def
      flushEvents_def worldOf_def)

text \<open>
  C5 as stated fails in two ways. A queue holding one transaction prepare is emptied with
  nothing sent, called, freed or reported: the entry is dropped silently. And when the retry
  of the first write ends with another status, the call throws and the queue is not empty.
\<close>

theorem flushSession_counterexample:
  "flushSession (\<lambda>r. STATUS_OK) 1 (worldOf peerTx)
     = (\<lparr>masters = [(1, peerTx\<lparr>rpcs := []\<rparr>)], counters = [], trace = []\<rparr>, Returned)
   \<and> flushSession (\<lambda>r. STATUS_OTHER 7) 1 (worldOf peerA)
     = (\<lparr>masters = [(1, peerA)], counters = [],
         trace = [RetrySent 1 2 \<lparr>data = Some 101, sizeBytes = 8\<rparr>]\<rparr>, Threw (STATUS_OTHER 7))"
  by (simp add: flushSession_def peerA_def peerTx_def txPrepare_def plainWrite_def
      RetryUnsyncedRpc_wait_def worldOf_def)

section \<open>Evaluation of the examples\<close>

lemmas eval_defs = registerUnsynced_def updateLogState_def getOrInitMasterRecord_def
  emptyWorld_def Master_updateLogState_def peerA_def peerB_def peerTx_def worldOf_def
  plainWrite_def txPrepare_def twoPeers_def sync_callback_def setBackCallback_def
  flushSession_def RetryUnsyncedRpc_wait_def cell_def pending_def queued_def wrappers_def
  wrappersAllocated_def Let_def

section \<open>One fan-in round across the loops\<close>

lemma Master_updateLogState_loop:
  fixes isSynced :: "'l::linorder \<Rightarrow> 'l \<Rightarrow> bool"
  assumes "Master_updateLogState isSynced S m h = (m', h', evs)"
  shows "updateLogState_loop isSynced S (rpcs m) h = (rpcs m', h', evs)"
  using assms
  by (auto simp: Master_updateLogState_def Let_def split: prod.splits if_splits)




lemma invoke_length: "invoke c h = (h', evs) \<Longrightarrow> length h' = length h"
  by (cases c) (auto split: option.splits if_splits)















section \<open>One fan-in round across the tracker's operations\<close>

lemma queued_append: "queued (xs @ ys) = queued xs @ queued ys"
  by (simp add: queued_def)

lemma queued_Cons: "queued ((s, m) # ms) = rpcs m @ queued ms"
  by (simp add: queued_def)

lemma queued_Nil: "queued [] = []"
  by (simp add: queued_def)

lemma map_of_split:
  assumes "map_of ms s = Some m"
  shows "\<exists>pre post. ms = pre @ (s, m) # post
           \<and> (\<forall>m'. AList.update s m' ms = pre @ (s, m') # post)"
  using assms
proof (induction ms)
  case Nil
  then show ?case by simp
next
  case (Cons a ms)
  show ?case
  proof (cases "fst a = s")
    case True
    with Cons.prems have "a = (s, m)" by (cases a) auto
    then have "a # ms = [] @ (s, m) # ms \<and> (\<forall>m'. AList.update s m' (a # ms) = [] @ (s, m') # ms)"
      by simp
    then show ?thesis by blast
  next
    case False
    with Cons.prems have "map_of ms s = Some m" by (cases a) auto
    from Cons.IH[OF this] obtain pre post where
      e: "ms = pre @ (s, m) # post" and u: "\<forall>m'. AList.update s m' ms = pre @ (s, m') # post"
      by blast
    from e u False have "a # ms = (a # pre) @ (s, m) # post
        \<and> (\<forall>m'. AList.update s m' (a # ms) = (a # pre) @ (s, m') # post)"
      by (cases a) auto
    then show ?thesis by blast
  qed
qed

lemma getOrInit_queued:
  assumes "getOrInitMasterRecord initial s ms0 = (m, ms)"
  shows "queued ms = queued ms0"
  using assms
  by (auto simp: getOrInitMasterRecord_def Let_def queued_append queued_Cons queued_Nil
      split: option.splits)






lemma gc_loop_frame:
  assumes "updateLogState_loop isSynced S q h = (q', h', evs)"
  shows "length h' = length h \<and> set q' \<subseteq> set q"
  using assms
proof (induction q arbitrary: h evs q' h')
  case Nil
  then show ?case by simp
next
  case (Cons r q)
  show ?case
  proof (cases "isSynced (logPosition r) S")
    case False
    with Cons.prems show ?thesis by auto
  next
    case True
    obtain h1 ev1 where i: "invoke (callback r) h = (h1, ev1::'a event list)"
      by (cases "invoke (callback r) h :: store \<times> 'a event list")
    obtain q2 h2 ev3 where l: "updateLogState_loop isSynced S q h1 = (q2, h2, ev3)"
      by (cases "updateLogState_loop isSynced S q h1")
    from Cons.prems True i l have "q' = q2" "h' = h2" by auto
    with Cons.IH[OF l] invoke_length[OF i] show ?thesis by auto
  qed
qed

lemma flush_loop_frame:
  assumes "flushSession_loop rs q h = (q', h', evs, out)"
  shows "length h' = length h \<and> set q' \<subseteq> set q"
  using assms
proof (induction q arbitrary: h evs q' h' out)
  case Nil
  then show ?case by simp
next
  case (Cons r q)
  show ?case
  proof (cases "txWithUnsyncedPrepare r \<noteq> None")
    case True
    with Cons.prems have "flushSession_loop rs q h = (q', h', evs, out)" by simp
    from Cons.IH[OF this] show ?thesis by auto
  next
    case plain: False
    show ?thesis
    proof (cases "RetryUnsyncedRpc_wait (rs r)")
      case (Inl st)
      with Cons.prems plain show ?thesis by auto
    next
      case (Inr u)
      obtain h1 ev1 where i: "invoke (callback r) h = (h1, ev1::'a event list)"
        by (cases "invoke (callback r) h :: store \<times> 'a event list")
      obtain q2 h2 ev2 out2 where l: "flushSession_loop rs q h1 = (q2, h2, ev2, out2)"
        by (cases "flushSession_loop rs q h1")
      from Cons.prems plain Inr i l have "q' = q2" "h' = h2" by auto
      with Cons.IH[OF l] invoke_length[OF i] show ?thesis by auto
    qed
  qed
qed






lemma sync_send_frame:
  "queued (fst (sync_send ms)) = queued ms \<and> delivered k (snd (sync_send ms)) = 0"
  by (induction ms rule: sync_send.induct)
     (auto simp: queued_Cons queued_Nil Let_def split: prod.splits)

lemma efficientSync_send_frame:
  "queued (fst (efficientSync_send s ms)) = queued ms
   \<and> delivered k (snd (efficientSync_send s ms)) = 0"
  by (induction s ms rule: efficientSync_send.induct)
     (auto simp: queued_Cons queued_Nil Let_def split: prod.splits)








lemma sync_callback_alt:
  "sync_callback cb T =
     (if filter (\<lambda>(k, m). rpcs m \<noteq> []) (masters T) = [] then T
      else T\<lparr>counters := counters T @ [Some 0],
             masters := installed (FanIn cb (int (length (filter (\<lambda>(k, m). rpcs m \<noteq> []) (masters T))))
                           (length (counters T))) (masters T)\<rparr>)"
  by (simp add: sync_callback_def installed_def Let_def)











lemma roundInv_weaken: "roundInv Exactly k cb N d T \<Longrightarrow> roundInv AtMost k cb N d T"
  by (auto simp: roundInv_def fanIn_def split: option.splits)






section \<open>The wrapper on the flush path\<close>






lemma lookup_in_queued:
  assumes "map_of ms s = Some m"
  shows "set (rpcs m) \<subseteq> set (queued ms)"
proof -
  from map_of_split[OF assms] obtain pre post where "ms = pre @ (s, m) # post" by blast
  then show ?thesis by (auto simp: queued_append queued_Cons)
qed





section \<open>The callback given at registration\<close>

text \<open>
  C2 fails on the code. A write is registered with callback \<open>c1\<close> at a position \<open>P\<close> that
  does not cover itself, so it stays queued; \<^verbatim>\<open>sync(callback)\<close> with \<open>c2\<close> overwrites the
  entry's callback with its wrapper (the line that would keep the old callback is commented
  out under a TODO); \<^verbatim>\<open>updateLogState\<close> with a covering state then resolves the write: the
  wrapper is called, \<open>c2\<close> is called, the request is freed, and \<open>c1\<close> is never called.
\<close>

theorem sync_callback_discards_registered_callback:
  fixes isSynced :: "'l::linorder \<Rightarrow> 'l \<Rightarrow> bool"
  assumes "\<not> isSynced P P" and "isSynced P S"
  shows "let T1 = registerUnsynced isSynced initial s req tid kh ver P (Client c1) emptyWorld;
             T2 = sync_callback c2 T1;
             T3 = updateLogState isSynced s S T2
         in map (\<lambda>(k, m). map callback (rpcs m)) (masters T1) = [[Client c1]]
          \<and> trace T1 = []
          \<and> map (\<lambda>(k, m). map callback (rpcs m)) (masters T2) = [[FanIn c2 1 0]]
          \<and> map (\<lambda>(k, m). rpcs m) (masters T3) = [[]]
          \<and> trace T3 = [Callback (FanIn c2 1 0), FanInCallback 0 c2, Free (data req)]
          \<and> callbacksCalled (trace T3) = [FanIn c2 1 0]"
  using assms by (simp add: eval_defs)

theorem sync_callback_discards_registered_callback_witness:
  "\<not> (10::nat) < 10 \<and> (10::nat) < 40
   \<and> trace (updateLogState (<) 1 40 (sync_callback 8
        (registerUnsynced (<) 0 1 \<lparr>data = Some 101, sizeBytes = 8\<rparr> 1 2 3 (10::nat) (Client 1)
           emptyWorld)))
       = [Callback (FanIn 8 1 0), FanInCallback 0 8, Free (Some 101)]"
proof -
  have h: "\<not> (10::nat) < 10" "(10::nat) < 40" by simp_all
  from sync_callback_discards_registered_callback[of "(<)", OF h,
      of 0 1 "\<lparr>data = Some 101, sizeBytes = 8\<rparr>" 1 2 3 1 8]
  show ?thesis by (simp add: eval_defs)
qed

section \<open>efficientSync and sync()\<close>

lemma efficientSync_send_reinsert:
  "efficientSync_send s ms =
     (reinsert s ms (fst (sync_send (filter (\<lambda>(k, m). session m \<noteq> s) ms))),
      snd (sync_send (filter (\<lambda>(k, m). session m \<noteq> s) ms)))"
proof (induction ms)
  case Nil
  then show ?case by simp
next
  case (Cons a ms)
  obtain k m where a: "a = (k, m)" by (cases a)
  obtain us evs where s: "sync_send (filter (\<lambda>(k, m). session m \<noteq> s) ms) = (us, evs)"
    by (cases "sync_send (filter (\<lambda>(k, m). session m \<noteq> s) ms)")
  from Cons s have e: "efficientSync_send s ms = (reinsert s ms us, evs)" by simp
  show ?case unfolding a using e s by (simp add: Let_def)
qed

lemma sync_send_length: "length (fst (sync_send ms)) = length ms"
  by (induction ms rule: sync_send.induct) (auto simp: Let_def split: prod.splits)

lemma sync_wait_reinsert:
  fixes isSynced :: "'l::linorder \<Rightarrow> 'l \<Rightarrow> bool"
  assumes "\<forall>(k, m)\<in>set ms. session m = s \<longrightarrow> syncRpcHolder m = None"
    and "length us = length (filter (\<lambda>(k, m). session m \<noteq> s) ms)"
    and "sync_wait isSynced net uninit us h = (us', h', evs, out)"
  shows "sync_wait isSynced net uninit (reinsert s ms us) h = (reinsert s ms us', h', evs, out)"
  using assms
proof (induction ms arbitrary: us h us' h' evs out)
  case Nil
  then show ?case by simp
next
  case (Cons a ms)
  obtain k m where a: "a = (k, m)" by (cases a)
  from Cons.prems(1) have rest: "\<forall>(k, m)\<in>set ms. session m = s \<longrightarrow> syncRpcHolder m = None"
    by simp
  show ?case
  proof (cases "session m = s")
    case True
    with Cons.prems(1) a have none: "syncRpcHolder m = None" by simp
    from Cons.prems(2) True a
    have len: "length us = length (filter (\<lambda>(k, m). session m \<noteq> s) ms)" by simp
    from Cons.IH[OF rest len Cons.prems(3)] True none show ?thesis by (simp add: a)
  next
    case False
    with Cons.prems(2) a obtain u ur where us: "us = u # ur"
      and len: "length ur = length (filter (\<lambda>(k, m). session m \<noteq> s) ms)"
      by (cases us) auto
    obtain ku mu where u: "u = (ku, mu)" by (cases u)
    show ?thesis
    proof (cases "syncRpcHolder mu")
      case None
      obtain ur2 h2 ev2 out2 where w: "sync_wait isSynced net uninit ur h = (ur2, h2, ev2, out2)"
        by (cases "sync_wait isSynced net uninit ur h")
      from Cons.prems(3) us u None w have res: "us' = (ku, mu) # ur2" "h' = h2" "evs = ev2" "out = out2"
        by auto
      from Cons.IH[OF rest len w] False None res show ?thesis by (simp add: a us u)
    next
      case (Some sg)
      obtain s' goal where sg: "sg = (s', goal)" by (cases sg)
      show ?thesis
      proof (cases "SyncRpc_wait (net s' goal) (uninit s')")
        case (Inl st)
        with Cons.prems(3) us u Some sg have "us' = us" "h' = h" "evs = []" "out = Threw st"
          by auto
        with False Some sg Inl show ?thesis by (simp add: a us u)
      next
        case (Inr r)
        obtain ok newLogState where r: "r = (ok, newLogState)" by (cases r)
        obtain m1 h1 ev1 where up:
          "Master_updateLogState isSynced newLogState (mu\<lparr>syncRpcHolder := None\<rparr>) h = (m1, h1, ev1)"
          by (cases "Master_updateLogState isSynced newLogState (mu\<lparr>syncRpcHolder := None\<rparr>) h")
        obtain ur2 h2 ev2 out2 where w: "sync_wait isSynced net uninit ur h1 = (ur2, h2, ev2, out2)"
          by (cases "sync_wait isSynced net uninit ur h1")
        from Cons.prems(3) us u Some sg Inr r up w
        have res: "us' = (ku, m1) # ur2" "h' = h2" "evs = ev1 @ ev2" "out = out2"
          by auto
        from Cons.IH[OF rest len w] False Some sg Inr r up res show ?thesis
          by (simp add: a us u)
      qed
    qed
  qed
qed

lemma sync_send_sessions: "map (\<lambda>(k, m). session m) (fst (sync_send ms)) = map (\<lambda>(k, m). session m) ms"
  by (induction ms rule: sync_send.induct) (auto simp: Let_def split: prod.splits)

lemma Master_updateLogState_session:
  fixes isSynced :: "'l::linorder \<Rightarrow> 'l \<Rightarrow> bool"
  shows "session (fst (Master_updateLogState isSynced S m h)) = session m"
  by (auto simp: Master_updateLogState_def Let_def split: prod.splits)

lemma sync_wait_sessions:
  fixes isSynced :: "'l::linorder \<Rightarrow> 'l \<Rightarrow> bool"
  shows "map (\<lambda>(k, m). session m) (fst (sync_wait isSynced net uninit ms h))
           = map (\<lambda>(k, m). session m) ms"
proof (induction ms arbitrary: h)
  case Nil
  then show ?case by simp
next
  case (Cons a ms)
  obtain k m where a: "a = (k, m)" by (cases a)
  show ?case
  proof (cases "syncRpcHolder m")
    case None
    with Cons[of h] show ?thesis by (auto simp: a split: prod.splits)
  next
    case (Some sg)
    obtain s' goal where sg: "sg = (s', goal)" by (cases sg)
    show ?thesis
    proof (cases "SyncRpc_wait (net s' goal) (uninit s')")
      case (Inl st)
      with Some sg show ?thesis by (simp add: a)
    next
      case (Inr r)
      obtain ok newLogState where r: "r = (ok, newLogState)" by (cases r)
      obtain m1 h1 ev1 where up:
        "Master_updateLogState isSynced newLogState (m\<lparr>syncRpcHolder := None\<rparr>) h = (m1, h1, ev1)"
        by (cases "Master_updateLogState isSynced newLogState (m\<lparr>syncRpcHolder := None\<rparr>) h")
      from Master_updateLogState_session[of isSynced newLogState "m\<lparr>syncRpcHolder := None\<rparr>" h] up
      have "session m1 = session m" by simp
      with Cons[of h1] Some sg Inr r up show ?thesis by (auto simp: a split: prod.splits)
    qed
  qed
qed

lemma reinsert_skipped:
  assumes "\<forall>u\<in>set us. session (snd u) \<noteq> s"
    and "length us = length (filter (\<lambda>(k, m). session m \<noteq> s) ms)"
  shows "filter (\<lambda>(k, m). session m = s) (reinsert s ms us) = filter (\<lambda>(k, m). session m = s) ms"
  using assms
proof (induction ms arbitrary: us)
  case Nil
  then show ?case by simp
next
  case (Cons a ms)
  obtain k m where a: "a = (k, m)" by (cases a)
  show ?case
  proof (cases "session m = s")
    case True
    with Cons show ?thesis by (simp add: a)
  next
    case False
    with Cons.prems(2) a obtain u ur where us: "us = u # ur"
      and len: "length ur = length (filter (\<lambda>(k, m). session m \<noteq> s) ms)"
      by (cases us) auto
    from Cons.prems(1) us have u: "session (snd u) \<noteq> s" and ur: "\<forall>u\<in>set ur. session (snd u) \<noteq> s"
      by simp_all
    from Cons.IH[OF ur len] False u show ?thesis by (cases u) (simp add: a us)
  qed
qed

lemma sync_wait_length:
  fixes isSynced :: "'l::linorder \<Rightarrow> 'l \<Rightarrow> bool"
  shows "length (fst (sync_wait isSynced net uninit ms h)) = length ms"
  using sync_wait_sessions[of isSynced net uninit ms h] by (metis length_map)

lemma sessions_not_skipped:
  assumes "map (\<lambda>(k, m). session m) us = map (\<lambda>(k, m). session m) (filter (\<lambda>(k, m). session m \<noteq> s) ms)"
  shows "\<forall>u\<in>set us. session (snd u) \<noteq> s"
proof
  fix u assume "u \<in> set us"
  then have "session (snd u) \<in> set (map (\<lambda>(k, m). session m) us)" by (force simp: case_prod_unfold)
  with assms have "session (snd u) \<in> set (map (\<lambda>(k, m). session m) (filter (\<lambda>(k, m). session m \<noteq> s) ms))"
    by simp
  then show "session (snd u) \<noteq> s" by auto
qed

text \<open>
  When no peer with the session to skip holds a \<^verbatim>\<open>SyncRpc\<close> from an earlier round,
  \<^verbatim>\<open>efficientSync\<close> is \<^verbatim>\<open>sync()\<close> on the other peers, and the skipped peers are as before.
\<close>

lemma efficientSync_is_restricted_sync:
  fixes isSynced :: "'l::linorder \<Rightarrow> 'l \<Rightarrow> bool"
  assumes "\<forall>(k, m)\<in>set (masters T). session m = s \<longrightarrow> syncRpcHolder m = None"
  shows "efficientSync isSynced net uninit s T = sync_restricted isSynced net uninit s T
       \<and> filter (\<lambda>(k, m). session m = s) (masters (fst (efficientSync isSynced net uninit s T)))
           = filter (\<lambda>(k, m). session m = s) (masters T)"
proof -
  let ?others = "filter (\<lambda>(k, m). session m \<noteq> s) (masters T)"
  obtain ms1 ev1 where snd1: "sync_send ?others = (ms1, ev1::'l event list)"
    by (cases "sync_send ?others :: (nat \<times> 'l Master) list \<times> 'l event list")
  obtain ms2 h ev2 out where w: "sync_wait isSynced net uninit ms1 (counters T) = (ms2, h, ev2, out)"
    by (cases "sync_wait isSynced net uninit ms1 (counters T)")
  have len1: "length ms1 = length ?others" using sync_send_length[of ?others] snd1 by simp
  have e1: "efficientSync_send s (masters T) = (reinsert s (masters T) ms1, ev1)"
    using efficientSync_send_reinsert[of s "masters T"] snd1 by simp
  have skipNone: "\<forall>(k, m)\<in>set (masters T). session m = s \<longrightarrow> syncRpcHolder m = None"
    by (rule assms)
  note w2 = sync_wait_reinsert[OF skipNone len1 w]
  have eff: "efficientSync isSynced net uninit s T =
      (T\<lparr>masters := reinsert s (masters T) ms2, counters := h, trace := trace T @ ev1 @ ev2\<rparr>, out)"
    using e1 w2 by (simp add: efficientSync_def)
  have res: "sync_restricted isSynced net uninit s T =
      (T\<lparr>masters := reinsert s (masters T) ms2, counters := h, trace := trace T @ ev1 @ ev2\<rparr>, out)"
    using snd1 w by (simp add: sync_restricted_def sync_def)
  have sess: "map (\<lambda>(k, m). session m) ms2 = map (\<lambda>(k, m). session m) ?others"
    using sync_wait_sessions[of isSynced net uninit ms1 "counters T"] w
      sync_send_sessions[of ?others] snd1 by simp
  have len2: "length ms2 = length ?others" using sess by (metis length_map)
  have "filter (\<lambda>(k, m). session m = s) (reinsert s (masters T) ms2)
          = filter (\<lambda>(k, m). session m = s) (masters T)"
    by (rule reinsert_skipped[OF sessions_not_skipped[OF sess] len2])
  with eff res show ?thesis by simp
qed

lemma efficientSync_is_restricted_sync_example:
  "efficientSync (<) allSynced (\<lambda>s. 0) 2 twoRegistered
     = sync_restricted (<) allSynced (\<lambda>s. 0) 2 twoRegistered
   \<and> map_of (masters (fst (efficientSync (<) allSynced (\<lambda>s. 0) 2 twoRegistered))) 2
     = map_of (masters twoRegistered) 2"
proof -
  have h: "\<forall>(k, m)\<in>set (masters twoRegistered). session m = 2 \<longrightarrow> syncRpcHolder m = None"
    by (simp add: eval_defs twoRegistered_def)
  from efficientSync_is_restricted_sync[OF h, of "(<)" allSynced "\<lambda>s. 0"]
  show ?thesis
    by (simp add: eval_defs twoRegistered_def allSynced_def sync_def
      efficientSync_def sync_restricted_def SyncRpc_wait_def)
qed

text \<open>
  C8 fails on the code. Two peers hold one pending write each. In \<^verbatim>\<open>sync()\<close> the response
  from session 1 carries an error status: \<^verbatim>\<open>wait\<close> throws, and both masters keep the
  \<^verbatim>\<open>SyncRpc\<close> in their holder. A later \<^verbatim>\<open>efficientSync\<close> that is to skip session 2 sends
  nothing to it, but its second loop waits on every occupied holder without looking at the
  session: it waits on the RPC left over for session 2 and folds the response in, so the
  write of the skipped peer is resolved and its stored log state raised. \<^verbatim>\<open>sync()\<close>
  restricted to the other peer leaves session 2 as it was.
\<close>

theorem efficientSync_waits_for_skipped_peer:
  "sync (<) firstFails (\<lambda>s. 0) twoRegistered =
     (\<lparr>masters =
         [(1, \<lparr>session = 1, rpcs = [plainWrite 10 1 101], lastestLogState = 10,
                syncRpcHolder = Some (1, 10)\<rparr>),
          (2, \<lparr>session = 2, rpcs = [plainWrite 10 2 102], lastestLogState = 10,
                syncRpcHolder = Some (2, 10)\<rparr>)],
        counters = [], trace = [SyncSent 1 10, SyncSent 2 10]\<rparr>,
      Threw (STATUS_OTHER 3))
   \<and> efficientSync (<) allSynced (\<lambda>s. 0) 2 (fst (sync (<) firstFails (\<lambda>s. 0) twoRegistered)) =
     (\<lparr>masters =
         [(1, \<lparr>session = 1, rpcs = [], lastestLogState = 40, syncRpcHolder = None\<rparr>),
          (2, \<lparr>session = 2, rpcs = [], lastestLogState = 40, syncRpcHolder = None\<rparr>)],
        counters = [],
        trace = [SyncSent 1 10, SyncSent 2 10, SyncSent 1 10, Callback (Client 1),
                 Free (Some 101), Callback (Client 2), Free (Some 102)]\<rparr>,
      Returned)
   \<and> sync_restricted (<) allSynced (\<lambda>s. 0) 2 (fst (sync (<) firstFails (\<lambda>s. 0) twoRegistered)) =
     (\<lparr>masters =
         [(1, \<lparr>session = 1, rpcs = [], lastestLogState = 40, syncRpcHolder = None\<rparr>),
          (2, \<lparr>session = 2, rpcs = [plainWrite 10 2 102], lastestLogState = 10,
                syncRpcHolder = Some (2, 10)\<rparr>)],
        counters = [],
        trace = [SyncSent 1 10, SyncSent 2 10, SyncSent 1 10, Callback (Client 1),
                 Free (Some 101)]\<rparr>,
      Returned)"
  by (simp add: eval_defs twoRegistered_def firstFails_def allSynced_def sync_def
      efficientSync_def sync_restricted_def SyncRpc_wait_def)

text \<open>
  The order in which the map is visited does not matter for this. With session 2 visited
  first and its sync RPC failing, the RPC of session 1 is left in its holder, and
  \<^verbatim>\<open>efficientSync\<close> told to skip session 1 waits on it and resolves the write of session 1,
  where \<^verbatim>\<open>sync()\<close> restricted to the other peer leaves session 1 as it was.
\<close>

lemma efficientSync_skipped_peer_other_order:
  "map fst (masters twoRegisteredRev) = [2, 1]
   \<and> snd (sync (<) secondFails (\<lambda>s. 0) twoRegisteredRev) = Threw (STATUS_OTHER 3)
   \<and> map_of (masters (fst (sync (<) secondFails (\<lambda>s. 0) twoRegisteredRev))) 1
     = Some \<lparr>session = 1, rpcs = [plainWrite 10 1 101], lastestLogState = 10,
             syncRpcHolder = Some (1, 10)\<rparr>
   \<and> map_of (masters (fst (efficientSync (<) allSynced (\<lambda>s. 0) 1
        (fst (sync (<) secondFails (\<lambda>s. 0) twoRegisteredRev))))) 1
     = Some \<lparr>session = 1, rpcs = [], lastestLogState = 40, syncRpcHolder = None\<rparr>
   \<and> map_of (masters (fst (sync_restricted (<) allSynced (\<lambda>s. 0) 1
        (fst (sync (<) secondFails (\<lambda>s. 0) twoRegisteredRev))))) 1
     = Some \<lparr>session = 1, rpcs = [plainWrite 10 1 101], lastestLogState = 10,
             syncRpcHolder = Some (1, 10)\<rparr>"
  by (simp add: eval_defs twoRegisteredRev_def secondFails_def allSynced_def sync_def
      efficientSync_def sync_restricted_def SyncRpc_wait_def)

section \<open>The stored log state\<close>

lemma notDecreased_refl: "notDecreased ms ms"
  by (simp add: notDecreased_def)

lemma notDecreased_trans:
  "notDecreased a b \<Longrightarrow> notDecreased b c \<Longrightarrow> notDecreased a c"
  unfolding notDecreased_def by (meson order_trans)

lemma notDecreased_update:
  assumes "map_of ms s0 = Some m" and "lastestLogState m \<le> lastestLogState m'"
  shows "notDecreased ms (AList.update s0 m' ms)"
  using assms by (auto simp: notDecreased_def update_conv')

lemma notDecreased_getOrInit:
  assumes "getOrInitMasterRecord initial s0 ms = (m, ms1)"
  shows "notDecreased ms ms1"
  using assms
  by (auto simp: notDecreased_def getOrInitMasterRecord_def Let_def map_add_def
      split: option.splits)

lemma notDecreased_pointwise:
  assumes "list_all2 (\<lambda>a b. fst a = fst b \<and> lastestLogState (snd a) \<le> lastestLogState (snd b)) ms ms'"
  shows "notDecreased ms ms'"
  using assms
proof (induction rule: list_all2_induct)
  case Nil
  then show ?case by (simp add: notDecreased_def)
next
  case (Cons a as b bs)
  then show ?case by (cases a; cases b) (auto simp: notDecreased_def)
qed

lemma Master_updateLogState_grows:
  fixes isSynced :: "'l::linorder \<Rightarrow> 'l \<Rightarrow> bool"
  assumes "Master_updateLogState isSynced S m h = (m', h', evs)"
  shows "lastestLogState m \<le> lastestLogState m'"
  using Master_updateLogState_shape(2)[OF assms] by (simp split: if_splits)

lemma sync_send_pointwise:
  fixes ms :: "(nat \<times> ('l::linorder) Master) list"
  shows "list_all2 (\<lambda>a b. fst a = fst b \<and> lastestLogState (snd a) \<le> lastestLogState (snd b))
     ms (fst (sync_send ms))"
  by (induction ms rule: sync_send.induct) (auto simp: Let_def split: prod.splits)

lemma efficientSync_send_pointwise:
  fixes ms :: "(nat \<times> ('l::linorder) Master) list"
  shows "list_all2 (\<lambda>a b. fst a = fst b \<and> lastestLogState (snd a) \<le> lastestLogState (snd b))
     ms (fst (efficientSync_send s ms))"
  by (induction s ms rule: efficientSync_send.induct) (auto simp: Let_def split: prod.splits)

lemma grows_same:
  fixes ms :: "(nat \<times> ('l::linorder) Master) list"
  shows "list_all2 (\<lambda>a b. fst a = fst b \<and> lastestLogState (snd a) \<le> lastestLogState (snd b)) ms ms"
  by (simp add: list_all2_same)

lemma sync_wait_pointwise:
  fixes isSynced :: "'l::linorder \<Rightarrow> 'l \<Rightarrow> bool"
  shows "list_all2 (\<lambda>a b. fst a = fst b \<and> lastestLogState (snd a) \<le> lastestLogState (snd b))
     ms (fst (sync_wait isSynced net uninit ms h))"
proof (induction ms arbitrary: h)
  case Nil
  then show ?case by simp
next
  case (Cons a ms)
  obtain k m where a: "a = (k, m)" by (cases a)
  show ?case
  proof (cases "syncRpcHolder m")
    case None
    with Cons[of h] show ?thesis by (auto simp: a split: prod.splits)
  next
    case (Some sg)
    obtain s' goal where sg: "sg = (s', goal)" by (cases sg)
    show ?thesis
    proof (cases "SyncRpc_wait (net s' goal) (uninit s')")
      case (Inl st)
      with Some sg show ?thesis by (simp add: a grows_same)
    next
      case (Inr r)
      obtain ok newLogState where r: "r = (ok, newLogState)" by (cases r)
      obtain m1 h1 ev1 where up:
        "Master_updateLogState isSynced newLogState (m\<lparr>syncRpcHolder := None\<rparr>) h = (m1, h1, ev1)"
        by (cases "Master_updateLogState isSynced newLogState (m\<lparr>syncRpcHolder := None\<rparr>) h")
      from Master_updateLogState_grows[OF up] have "lastestLogState m \<le> lastestLogState m1" by simp
      with Cons[of h1] Some sg Inr r up show ?thesis by (auto simp: a split: prod.splits)
    qed
  qed
qed

lemma installed_pointwise:
  fixes ms :: "(nat \<times> ('l::linorder) Master) list"
  shows "list_all2 (\<lambda>a b. fst a = fst b \<and> lastestLogState (snd a) \<le> lastestLogState (snd b))
     ms (installed W ms)"
  by (induction ms) (auto simp: installed_def)

lemma list_all2_grow_trans:
  fixes ms :: "(nat \<times> ('l::linorder) Master) list"
  assumes "list_all2 (\<lambda>a b. fst a = fst b \<and> lastestLogState (snd a) \<le> lastestLogState (snd b)) ms ms1"
    and "list_all2 (\<lambda>a b. fst a = fst b \<and> lastestLogState (snd a) \<le> lastestLogState (snd b)) ms1 ms2"
  shows "list_all2 (\<lambda>a b. fst a = fst b \<and> lastestLogState (snd a) \<le> lastestLogState (snd b)) ms ms2"
  using assms by (rule list_all2_trans[rotated]) auto

lemma step_notDecreased:
  fixes isSynced :: "'l::linorder \<Rightarrow> 'l \<Rightarrow> bool"
  shows "notDecreased (masters T) (masters (step isSynced initial c T))"
proof (cases c)
  case (RegisterUnsynced s req tid kh ver logPos cb)
  obtain m ms where g: "getOrInitMasterRecord initial s (masters T) = (m, ms)"
    by (cases "getOrInitMasterRecord initial s (masters T)")
  let ?m1 = "m\<lparr>rpcs := rpcs m @
                 [\<lparr>request = req, tableId = tid, keyHash = kh, objVer = ver,
                   txWithUnsyncedPrepare = None, logPosition = logPos, callback = Client cb\<rparr>]\<rparr>"
  obtain m2 h evs where u: "Master_updateLogState isSynced logPos ?m1 (counters T) = (m2, h, evs)"
    by (cases "Master_updateLogState isSynced logPos ?m1 (counters T)")
  from Master_updateLogState_grows[OF u] have "lastestLogState m \<le> lastestLogState m2" by simp
  from notDecreased_trans[OF notDecreased_getOrInit[OF g]
      notDecreased_update[OF getOrInit_lookup[OF g] this]]
  show ?thesis using RegisterUnsynced g u by (simp add: registerUnsynced_def)
next
  case (RegisterUnsyncedTx s txTask logPos)
  obtain m ms where g: "getOrInitMasterRecord initial s (masters T) = (m, ms)"
    by (cases "getOrInitMasterRecord initial s (masters T)")
  let ?m1 = "m\<lparr>rpcs := rpcs m @
                 [\<lparr>request = \<lparr>data = None, sizeBytes = 0\<rparr>, tableId = 0, keyHash = 0, objVer = 0,
                   txWithUnsyncedPrepare = Some txTask, logPosition = logPos,
                   callback = NoOp\<rparr>]\<rparr>"
  obtain m2 h evs where u: "Master_updateLogState isSynced logPos ?m1 (counters T) = (m2, h, evs)"
    by (cases "Master_updateLogState isSynced logPos ?m1 (counters T)")
  from Master_updateLogState_grows[OF u] have "lastestLogState m \<le> lastestLogState m2" by simp
  from notDecreased_trans[OF notDecreased_getOrInit[OF g]
      notDecreased_update[OF getOrInit_lookup[OF g] this]]
  show ?thesis using RegisterUnsyncedTx g u by (simp add: registerUnsyncedTx_def)
next
  case (FlushSession s rs)
  show ?thesis
  proof (cases "map_of (masters T) s")
    case None
    with FlushSession show ?thesis by (simp add: flushSession_def notDecreased_refl)
  next
    case (Some m)
    obtain q h evs out where l: "flushSession_loop rs (rpcs m) (counters T) = (q, h, evs, out)"
      by (cases "flushSession_loop rs (rpcs m) (counters T)")
    from notDecreased_update[OF Some, of "m\<lparr>rpcs := q\<rparr>"]
    show ?thesis using FlushSession Some l by (simp add: flushSession_def)
  qed
next
  case (UpdateLogState s S)
  show ?thesis
  proof (cases "map_of (masters T) s")
    case None
    with UpdateLogState show ?thesis by (simp add: updateLogState_def notDecreased_refl)
  next
    case (Some m)
    obtain m2 h evs where u: "Master_updateLogState isSynced S m (counters T) = (m2, h, evs)"
      by (cases "Master_updateLogState isSynced S m (counters T)")
    from notDecreased_update[OF Some Master_updateLogState_grows[OF u]]
    show ?thesis using UpdateLogState Some u by (simp add: updateLogState_def)
  qed
next
  case (EfficientSync s net uninit)
  obtain ms1 ev1 where e: "efficientSync_send s (masters T) = (ms1, ev1::'l event list)"
    by (cases "efficientSync_send s (masters T) :: (nat \<times> 'l Master) list \<times> 'l event list")
  obtain ms2 h ev2 out where w: "sync_wait isSynced net uninit ms1 (counters T) = (ms2, h, ev2, out)"
    by (cases "sync_wait isSynced net uninit ms1 (counters T)")
  from efficientSync_send_pointwise[of "masters T" s] e
    sync_wait_pointwise[of ms1 isSynced net uninit "counters T"] w
  have "list_all2 (\<lambda>a b. fst a = fst b \<and> lastestLogState (snd a) \<le> lastestLogState (snd b))
      (masters T) ms2"
    using list_all2_grow_trans by fastforce
  from notDecreased_pointwise[OF this] show ?thesis
    using EfficientSync e w by (simp add: efficientSync_def)
next
  case (Sync net uninit)
  obtain ms1 ev1 where e: "sync_send (masters T) = (ms1, ev1::'l event list)"
    by (cases "sync_send (masters T) :: (nat \<times> 'l Master) list \<times> 'l event list")
  obtain ms2 h ev2 out where w: "sync_wait isSynced net uninit ms1 (counters T) = (ms2, h, ev2, out)"
    by (cases "sync_wait isSynced net uninit ms1 (counters T)")
  from sync_send_pointwise[of "masters T"] e
    sync_wait_pointwise[of ms1 isSynced net uninit "counters T"] w
  have "list_all2 (\<lambda>a b. fst a = fst b \<and> lastestLogState (snd a) \<le> lastestLogState (snd b))
      (masters T) ms2"
    using list_all2_grow_trans by fastforce
  from notDecreased_pointwise[OF this] show ?thesis
    using Sync e w by (simp add: sync_def)
next
  case (SyncCallback cb)
  have "notDecreased (masters T) (installed W (masters T))" for W
    by (rule notDecreased_pointwise[OF installed_pointwise])
  then show ?thesis
    using SyncCallback by (simp add: sync_callback_alt notDecreased_refl)
qed

lemma run_notDecreased:
  fixes isSynced :: "'l::linorder \<Rightarrow> 'l \<Rightarrow> bool"
  shows "notDecreased (masters T) (masters (run isSynced initial cs T))"
proof (induction cs arbitrary: T)
  case Nil
  then show ?case by (simp add: notDecreased_refl)
next
  case (Cons c cs)
  from notDecreased_trans[OF step_notDecreased Cons[of "step isSynced initial c T"]]
  show ?case by simp
qed

text \<open>
  C6. After \<^verbatim>\<open>Master::updateLogState(S)\<close> the stored log state is the maximum of the one
  stored before and \<open>S\<close>, so it has not decreased. Calling it again on the result with any
  \<open>S'\<close> that is at most \<open>S\<close> and covers no position that \<open>S\<close> does not cover (the same \<open>S\<close>
  in particular) changes nothing and calls nothing. And across any sequence of calls of the
  tracker's interface no peer's stored log state decreases.
\<close>

theorem Master_updateLogState_max_idempotent:
  fixes isSynced :: "'l::linorder \<Rightarrow> 'l \<Rightarrow> bool"
  assumes run: "Master_updateLogState isSynced S m h = (m1, h1, ev1)"
  shows "lastestLogState m1 = max (lastestLogState m) S
       \<and> lastestLogState m \<le> lastestLogState m1
       \<and> Master_updateLogState isSynced S m1 h1 = (m1, h1, [])
       \<and> (\<forall>S'. S' \<le> S \<and> (\<forall>p. isSynced p S' \<longrightarrow> isSynced p S)
            \<longrightarrow> Master_updateLogState isSynced S' m1 h1 = (m1, h1, []))
       \<and> (\<forall>T calls initial.
            notDecreased (masters T) (masters (run isSynced initial calls T)))"
proof -
  note sh = Master_updateLogState_shape[OF run]
  have mx: "lastestLogState m1 = max (lastestLogState m) S"
    using sh(2) by (auto simp: max_def)
  have front: "case rpcs m1 of [] \<Rightarrow> True | r # rest \<Rightarrow> \<not> isSynced (logPosition r) S"
    using loop_front_not_covered[OF sh(1)] .
  have again: "Master_updateLogState isSynced S' m1 h1 = (m1, h1, [])"
    if le: "S' \<le> S" and cov: "\<forall>p. isSynced p S' \<longrightarrow> isSynced p S" for S'
  proof -
    have nolt: "\<not> lastestLogState m1 < S'" using mx le by (auto simp: max_def)
    have "updateLogState_loop isSynced S' (rpcs m1) h1 = (rpcs m1, h1, [])"
      using front cov by (cases "rpcs m1") auto
    with nolt show ?thesis by (simp add: Master_updateLogState_def)
  qed
  from again[of S] have same: "Master_updateLogState isSynced S m1 h1 = (m1, h1, [])" by simp
  have all: "\<forall>T calls initial. notDecreased (masters T) (masters (run isSynced initial calls T))"
    using run_notDecreased by blast
  show ?thesis using mx same again all by (auto simp: max_def)
qed

theorem Master_updateLogState_max_idempotent_witness:
  "(15::nat) \<le> 20
   \<and> lastestLogState (peerA\<lparr>lastestLogState := 20, rpcs := [plainWrite 30 3 103]\<rparr>)
       = max (lastestLogState peerA) 20
   \<and> Master_updateLogState (\<le>) 15 (peerA\<lparr>lastestLogState := 20, rpcs := [plainWrite 30 3 103]\<rparr>) []
       = (peerA\<lparr>lastestLogState := 20, rpcs := [plainWrite 30 3 103]\<rparr>, [], [])
   \<and> map_of (masters (worldOf peerA)) 1 = Some peerA
   \<and> map_of (masters (run (\<le>) 0 [UpdateLogState 1 20, UpdateLogState 1 15] (worldOf peerA))) 1
       = Some (peerA\<lparr>lastestLogState := 20, rpcs := [plainWrite 30 3 103]\<rparr>)"
proof -
  have h: "(15::nat) \<le> 20 \<and> (\<forall>p::nat. p \<le> 15 \<longrightarrow> p \<le> 20)" by simp
  from Master_updateLogState_max_idempotent[OF peerA_run] h
  show ?thesis by (simp add: eval_defs)
qed

section \<open>Worlds reached through the interface\<close>

text \<open>
  The condition under which the fan-in statements are proved holds in every world that the
  interface can produce from the empty tracker: a queued wrapper always points at a counter
  that has been allocated.
\<close>

lemma wrappersAllocated_alt:
  "wrappersAllocated T = alloc (length (counters T)) (queued (masters T))"
  by (simp add: wrappersAllocated_def alloc_def list_all_iff)

lemma alloc_append: "alloc n (xs @ ys) = (alloc n xs \<and> alloc n ys)"
  by (auto simp: alloc_def)

lemma alloc_subset: "alloc n q \<Longrightarrow> set q' \<subseteq> set q \<Longrightarrow> alloc n q'"
  by (auto simp: alloc_def)

lemma alloc_mono: "alloc n q \<Longrightarrow> n \<le> n' \<Longrightarrow> alloc n' q"
  by (auto simp: alloc_def split: callback.splits)

lemma alloc_replace:
  assumes "alloc n (queued ms)" and "map_of ms s = Some m" and "alloc n (rpcs m')"
  shows "alloc n (queued (AList.update s m' ms))"
proof -
  from map_of_split[OF assms(2)] obtain pre post where
    "ms = pre @ (s, m) # post" "AList.update s m' ms = pre @ (s, m') # post" by blast
  with assms(1,3) show ?thesis by (simp add: queued_append queued_Cons alloc_append)
qed

lemma alloc_lookup:
  assumes "alloc n (queued ms)" and "map_of ms s = Some m"
  shows "alloc n (rpcs m)"
  using assms lookup_in_queued[OF assms(2)] by (auto simp: alloc_def)

lemma wrappersAllocated_Master_updateLogState:
  fixes isSynced :: "'l::linorder \<Rightarrow> 'l \<Rightarrow> bool"
  assumes wf: "wrappersAllocated T"
    and ms: "queued ms = queued (masters T)"
    and look: "map_of ms s = Some m"
    and m1: "rpcs m1 = rpcs m @ extra" and ex: "alloc (length (counters T)) extra"
    and u: "Master_updateLogState isSynced S m1 (counters T) = (m2, h, evs)"
  shows "wrappersAllocated
           (T\<lparr>masters := AList.update s m2 ms, counters := h, trace := trace T @ evs\<rparr>)"
proof -
  note fr = gc_loop_frame[OF Master_updateLogState_loop[OF u]]
  from wf ms have a: "alloc (length (counters T)) (queued ms)" by (simp add: wrappersAllocated_alt)
  from alloc_lookup[OF a look] ex m1 have "alloc (length (counters T)) (rpcs m1)"
    by (simp add: alloc_append)
  with fr have "alloc (length (counters T)) (rpcs m2)" by (auto intro: alloc_subset)
  from alloc_replace[OF a look this] fr show ?thesis by (simp add: wrappersAllocated_alt)
qed

lemma sync_wait_alloc:
  fixes isSynced :: "'l::linorder \<Rightarrow> 'l \<Rightarrow> bool"
  assumes "sync_wait isSynced net uninit ms h = (ms', h', evs, out)"
    and "alloc n (queued ms)"
  shows "alloc n (queued ms') \<and> length h' = length h"
  using assms
proof (induction ms arbitrary: h evs ms' h' out)
  case Nil
  then show ?case by simp
next
  case (Cons a ms)
  obtain s m where a: "a = (s, m)" by (cases a)
  from Cons.prems(2) have am: "alloc n (rpcs m)" and ams: "alloc n (queued ms)"
    by (simp_all add: a queued_Cons alloc_append)
  show ?case
  proof (cases "syncRpcHolder m")
    case None
    obtain ms2 h2 ev2 out2 where l: "sync_wait isSynced net uninit ms h = (ms2, h2, ev2, out2)"
      by (cases "sync_wait isSynced net uninit ms h")
    from Cons.prems(1) None l have res: "ms' = (s, m) # ms2" "h' = h2" by (auto simp: a)
    from Cons.IH[OF l ams] am res show ?thesis by (simp add: queued_Cons alloc_append)
  next
    case (Some sg)
    obtain s' goal where sg: "sg = (s', goal)" by (cases sg)
    show ?thesis
    proof (cases "SyncRpc_wait (net s' goal) (uninit s')")
      case (Inl st)
      with Cons.prems(1) Some sg have "ms' = a # ms" "h' = h" by (auto simp: a)
      with Cons.prems(2) show ?thesis by simp
    next
      case (Inr r)
      obtain ok newLogState where r: "r = (ok, newLogState)" by (cases r)
      obtain m1 h1 ev1 where u:
        "Master_updateLogState isSynced newLogState (m\<lparr>syncRpcHolder := None\<rparr>) h = (m1, h1, ev1)"
        by (cases "Master_updateLogState isSynced newLogState (m\<lparr>syncRpcHolder := None\<rparr>) h")
      obtain ms2 h2 ev2 out2 where l: "sync_wait isSynced net uninit ms h1 = (ms2, h2, ev2, out2)"
        by (cases "sync_wait isSynced net uninit ms h1")
      from Cons.prems(1) Some sg Inr r u l have res: "ms' = (s, m1) # ms2" "h' = h2"
        by (auto simp: a)
      from gc_loop_frame[OF Master_updateLogState_loop[OF u]]
      have len1: "length h1 = length h" and sub: "set (rpcs m1) \<subseteq> set (rpcs m)" by auto
      from am sub have am1: "alloc n (rpcs m1)" by (rule alloc_subset)
      from Cons.IH[OF l ams] am1 len1 res show ?thesis by (simp add: queued_Cons alloc_append)
    qed
  qed
qed

lemma installed_alloc:
  assumes "alloc n (queued ms)" and "case W of FanIn c n' k \<Rightarrow> k < n | _ \<Rightarrow> True"
  shows "alloc n (queued (installed W ms))"
  using assms(1)
proof (induction ms)
  case Nil
  then show ?case by (simp add: installed_def)
next
  case (Cons a ms)
  obtain s m where a: "a = (s, m)" by (cases a)
  have i: "installed W (a # ms) =
     (if rpcs m = [] then (s, m) else (s, m\<lparr>rpcs := setBackCallback W (rpcs m)\<rparr>)) # installed W ms"
    by (simp add: installed_def a)
  from Cons.prems have am: "alloc n (rpcs m)" and ams: "alloc n (queued ms)"
    by (simp_all add: a queued_Cons alloc_append)
  have "alloc n (setBackCallback W (rpcs m))"
    using am assms(2) by (auto simp: alloc_def setBackCallback_def dest: in_set_butlastD)
  with Cons.IH[OF ams] am i show ?case by (simp add: queued_Cons alloc_append)
qed

lemma wrappersAllocated_step:
  fixes isSynced :: "'l::linorder \<Rightarrow> 'l \<Rightarrow> bool"
  assumes wf: "wrappersAllocated T"
  shows "wrappersAllocated (step isSynced initial c T)"
proof (cases c)
  case (RegisterUnsynced s req tid kh ver logPos cb)
  obtain m ms where g: "getOrInitMasterRecord initial s (masters T) = (m, ms)"
    by (cases "getOrInitMasterRecord initial s (masters T)")
  let ?new = "\<lparr>request = req, tableId = tid, keyHash = kh, objVer = ver,
               txWithUnsyncedPrepare = None, logPosition = logPos, callback = Client cb\<rparr>"
  let ?m1 = "m\<lparr>rpcs := rpcs m @ [?new]\<rparr>"
  obtain m2 h evs where u: "Master_updateLogState isSynced logPos ?m1 (counters T) = (m2, h, evs)"
    by (cases "Master_updateLogState isSynced logPos ?m1 (counters T)")
  have ex: "alloc (length (counters T)) [?new]" by (simp add: alloc_def)
  from wrappersAllocated_Master_updateLogState[OF wf getOrInit_queued[OF g] getOrInit_lookup[OF g] _ ex u]
  show ?thesis using RegisterUnsynced g u by (simp add: registerUnsynced_def)
next
  case (RegisterUnsyncedTx s txTask logPos)
  obtain m ms where g: "getOrInitMasterRecord initial s (masters T) = (m, ms)"
    by (cases "getOrInitMasterRecord initial s (masters T)")
  let ?new = "\<lparr>request = \<lparr>data = None, sizeBytes = 0\<rparr>, tableId = 0, keyHash = 0, objVer = 0,
               txWithUnsyncedPrepare = Some txTask, logPosition = logPos, callback = NoOp\<rparr>"
  let ?m1 = "m\<lparr>rpcs := rpcs m @ [?new]\<rparr>"
  obtain m2 h evs where u: "Master_updateLogState isSynced logPos ?m1 (counters T) = (m2, h, evs)"
    by (cases "Master_updateLogState isSynced logPos ?m1 (counters T)")
  have ex: "alloc (length (counters T)) [?new]" by (simp add: alloc_def)
  from wrappersAllocated_Master_updateLogState[OF wf getOrInit_queued[OF g] getOrInit_lookup[OF g] _ ex u]
  show ?thesis using RegisterUnsyncedTx g u by (simp add: registerUnsyncedTx_def)
next
  case (FlushSession s rs)
  show ?thesis
  proof (cases "map_of (masters T) s")
    case None
    with FlushSession wf show ?thesis by (simp add: flushSession_def)
  next
    case (Some m)
    obtain q h evs out where l: "flushSession_loop rs (rpcs m) (counters T) = (q, h, evs, out)"
      by (cases "flushSession_loop rs (rpcs m) (counters T)")
    note fr = flush_loop_frame[OF l]
    from wf have a: "alloc (length (counters T)) (queued (masters T))"
      by (simp add: wrappersAllocated_alt)
    from alloc_lookup[OF a Some] fr have "alloc (length (counters T)) (rpcs (m\<lparr>rpcs := q\<rparr>))"
      by (auto intro: alloc_subset)
    from alloc_replace[OF a Some this] fr show ?thesis
      using FlushSession Some l by (simp add: flushSession_def wrappersAllocated_alt)
  qed
next
  case (UpdateLogState s S)
  show ?thesis
  proof (cases "map_of (masters T) s")
    case None
    with UpdateLogState wf show ?thesis by (simp add: updateLogState_def)
  next
    case (Some m)
    obtain m2 h evs where u: "Master_updateLogState isSynced S m (counters T) = (m2, h, evs)"
      by (cases "Master_updateLogState isSynced S m (counters T)")
    have ex: "alloc (length (counters T)) []" by (simp add: alloc_def)
    from wrappersAllocated_Master_updateLogState[OF wf refl Some _ ex u]
    show ?thesis using UpdateLogState Some u by (simp add: updateLogState_def)
  qed
next
  case (EfficientSync s net uninit)
  obtain ms1 ev1 where e: "efficientSync_send s (masters T) = (ms1, ev1::'l event list)"
    by (cases "efficientSync_send s (masters T) :: (nat \<times> 'l Master) list \<times> 'l event list")
  obtain ms2 h ev2 out where w: "sync_wait isSynced net uninit ms1 (counters T) = (ms2, h, ev2, out)"
    by (cases "sync_wait isSynced net uninit ms1 (counters T)")
  from efficientSync_send_frame[of s "masters T" 0] e wf
  have "alloc (length (counters T)) (queued ms1)" by (simp add: wrappersAllocated_alt)
  from sync_wait_alloc[OF w this] show ?thesis
    using EfficientSync e w by (simp add: efficientSync_def wrappersAllocated_alt)
next
  case (Sync net uninit)
  obtain ms1 ev1 where e: "sync_send (masters T) = (ms1, ev1::'l event list)"
    by (cases "sync_send (masters T) :: (nat \<times> 'l Master) list \<times> 'l event list")
  obtain ms2 h ev2 out where w: "sync_wait isSynced net uninit ms1 (counters T) = (ms2, h, ev2, out)"
    by (cases "sync_wait isSynced net uninit ms1 (counters T)")
  from sync_send_frame[of "masters T" 0] e wf
  have "alloc (length (counters T)) (queued ms1)" by (simp add: wrappersAllocated_alt)
  from sync_wait_alloc[OF w this] show ?thesis
    using Sync e w by (simp add: sync_def wrappersAllocated_alt)
next
  case (SyncCallback cb)
  from wf have "alloc (length (counters T)) (queued (masters T))"
    by (simp add: wrappersAllocated_alt)
  then have a: "alloc (Suc (length (counters T))) (queued (masters T))"
    by (rule alloc_mono) simp
  have "alloc (Suc (length (counters T))) (queued (installed (FanIn cb n (length (counters T))) (masters T)))" for n
    by (rule installed_alloc[OF a]) simp
  with wf show ?thesis
    using SyncCallback by (simp add: sync_callback_alt wrappersAllocated_alt)
qed

lemma wrappersAllocated_reachable:
  fixes isSynced :: "'l::linorder \<Rightarrow> 'l \<Rightarrow> bool"
  shows "wrappersAllocated (run isSynced initial cs emptyWorld)"
proof -
  have "wrappersAllocated T \<Longrightarrow> wrappersAllocated (run isSynced initial cs T)" for T :: "'l World"
    by (induction cs arbitrary: T) (simp_all add: wrappersAllocated_step)
  moreover have "wrappersAllocated (emptyWorld :: 'l World)"
    by (simp add: wrappersAllocated_def emptyWorld_def queued_def)
  ultimately show ?thesis .
qed

end
